theory Spec2Isabelle
  imports Complex_Main
begin

section \<open>Numbers, vectors and scene objects\<close>

text \<open>
  A finite JavaScript number is modelled by the real number it denotes. Where the program
  computes with numbers (the particle cloud and the render loop), each arithmetic
  operation is the exact operation followed by the rounding of IEEE double precision,
  defined in the next section. The placement of the ring is read in the real numbers,
  with the exact cosine and sine: the statements about it concern the sign and the angles
  of the placement.

  A \<open>Vector3\<close> (and an \<open>Euler\<close> rotation, of which only the three angles are used) is a
  record of three reals. The fields \<open>xc\<close>, \<open>yc\<close>, \<open>zc\<close> are the source's \<open>x\<close>, \<open>y\<close>, \<open>z\<close>.
\<close>

record vector3 =
  xc :: real
  yc :: real
  zc :: real

definition vset :: "real \<Rightarrow> real \<Rightarrow> real \<Rightarrow> vector3" where
  "vset a b c = \<lparr>xc = a, yc = b, zc = c\<rparr>"

text \<open>
  An \<open>Object3D\<close>: its position and rotation, and an opaque handle for whatever else the
  rendering library keeps in it (geometry, materials). A new object sits at the origin
  with no rotation. A \<open>Group\<close> is an object with a list of children.
\<close>

record object3d =
  position :: vector3
  rotation :: vector3
  handle :: nat

record group = object3d +
  children :: "object3d list"

definition new_Mesh :: "nat \<Rightarrow> object3d" where
  "new_Mesh h = \<lparr>position = vset 0 0 0, rotation = vset 0 0 0, handle = h\<rparr>"

definition new_Group :: group where
  "new_Group = \<lparr>position = vset 0 0 0, rotation = vset 0 0 0, handle = 0, children = []\<rparr>"

definition add :: "group \<Rightarrow> object3d \<Rightarrow> group" where
  "add g ob = g\<lparr>children := children g @ [ob]\<rparr>"

section \<open>Double-precision arithmetic\<close>

text \<open>
  A double has a significand of 53 bits. The result of an operation is the double nearest
  to the exact result, and of two doubles equally near the one with the even
  significand. \<open>exponent x\<close> is the binary exponent of \<open>x\<close>, so that the doubles around \<open>x\<close>
  are the multiples of \<open>2 powi (exponent x - 52)\<close>, and \<open>fl x\<close> is \<open>x\<close> rounded.

  The exponent is not bounded here: \<open>fl\<close> is the rounding of the program's arithmetic for
  the results that a double represents with full precision, those of magnitude from
  \<open>2 powi (-1022)\<close> up to the largest double, and zero (\<open>normal\<close>). Overflow to Infinity and
  the doubles of reduced precision below that range are outside it.
\<close>

definition round_even :: "real \<Rightarrow> int" where
  "round_even y =
    (let f = \<lfloor>y\<rfloor>; r = y - of_int f
     in if r < 1 / 2 then f else if 1 / 2 < r then f + 1 else if even f then f else f + 1)"

definition exponent :: "real \<Rightarrow> int" where
  "exponent x = \<lfloor>log 2 \<bar>x\<bar>\<rfloor>"

definition fl :: "real \<Rightarrow> real" where
  "fl x = (if x = 0 then 0
           else of_int (round_even (x / 2 powi (exponent x - 52))) * 2 powi (exponent x - 52))"

definition normal :: "real \<Rightarrow> bool" where
  "normal x = (x = 0 \<or> (2 powi (- 1022) \<le> \<bar>x\<bar> \<and> \<bar>x\<bar> < 2 ^ 1024 - 2 ^ 970))"

text \<open>\<open>Math.PI\<close> is the double nearest to \<open>\<pi>\<close>.\<close>

definition Math_PI :: real where
  "Math_PI = 884279719003555 / 2 ^ 48"

text \<open>
  The argument of \<open>createParticleCloud\<close> is any number the caller passes, so it can also
  be \<open>Infinity\<close>, \<open>-Infinity\<close> or \<open>NaN\<close>. \<open>less_than i n\<close> is the comparison \<open>i < n\<close> of a
  finite \<open>i\<close> with such a number.
\<close>

datatype number = Finite real | Infinity | NegInfinity | NaN

fun less_than :: "real \<Rightarrow> number \<Rightarrow> bool" where
  "less_than i (Finite x) = (i < x)"
| "less_than i Infinity = True"
| "less_than i NegInfinity = False"
| "less_than i NaN = False"

section \<open>random and createParticleCloud\<close>

text \<open>
  \<open>Math.random()\<close>, \<open>Math.cos\<close> and \<open>Math.sin\<close> belong to the engine that runs the program,
  which is a parameter of the model. \<open>Math.random()\<close> reads an entropy source, a sequence
  of reals; the state is the number of values drawn so far: each call returns the next
  value and advances the count. \<open>Math.cos\<close> and \<open>Math.sin\<close> are approximations that the
  language leaves to the implementation: nothing is assumed of them.
\<close>

record math =
  random_values :: "nat \<Rightarrow> real"
  cos_values :: "real \<Rightarrow> real"
  sin_values :: "real \<Rightarrow> real"

definition Math_random :: "math \<Rightarrow> nat \<Rightarrow> real \<times> nat" where
  "Math_random src k = (random_values src k, Suc k)"

definition Math_cos :: "math \<Rightarrow> real \<Rightarrow> real" where
  "Math_cos src x = cos_values src x"

definition Math_sin :: "math \<Rightarrow> real \<Rightarrow> real" where
  "Math_sin src x = sin_values src x"

text \<open>\<open>Math.random() * (max - min) + min\<close>: a difference, a product and a sum, each rounded.\<close>

definition random :: "math \<Rightarrow> real \<Rightarrow> real \<Rightarrow> nat \<Rightarrow> real \<times> nat" where
  "random src lo hi k =
    (case Math_random src k of (u, k') \<Rightarrow> (fl (fl (u * fl (hi - lo)) + lo), k'))"

text \<open>
  The body of the loop of \<open>createParticleCloud\<close>: one mesh, from six draws in the order
  in which the source evaluates them. The geometry and the material are shared by all
  meshes (handle 1).
\<close>

definition particle :: "math \<Rightarrow> nat \<Rightarrow> object3d \<times> nat" where
  "particle src k =
    (let mesh = new_Mesh 1;
         (aG, k1) = random src 0 (fl (Math_PI * 2)) k;
         (rG, k2) = random src 120 140 k1;
         (yG, k3) = random src (-60) 100 k2;
         mesh = mesh\<lparr>position := vset (fl (rG * Math_cos src aG)) yG (fl (rG * Math_sin src aG))\<rparr>;
         (u1, k4) = Math_random src k3;
         (u2, k5) = Math_random src k4;
         (u3, k6) = Math_random src k5;
         mesh = mesh\<lparr>rotation := vset (fl (u1 * Math_PI)) (fl (u2 * Math_PI)) (fl (u3 * Math_PI))\<rparr>
     in (mesh, k6))"

text \<open>
  The loop \<open>for(i = 0; i < n; ++i)\<close>. The counter is a double: \<open>++i\<close> is \<open>i + 1\<close>, rounded.
  The loop need not end, so the result is an option: \<open>None\<close> is a loop that never returns.
\<close>

partial_function (option) cloud_loop ::
  "math \<Rightarrow> number \<Rightarrow> real \<Rightarrow> group \<times> nat \<Rightarrow> (group \<times> nat) option" where
  "cloud_loop src n i st =
    (if less_than i n
     then (case st of (particles, k) \<Rightarrow>
             (case particle src k of (mesh, k') \<Rightarrow>
                cloud_loop src n (fl (i + 1)) (add particles mesh, k')))
     else Some st)"

definition createParticleCloud :: "math \<Rightarrow> number \<Rightarrow> nat \<Rightarrow> (group \<times> nat) option" where
  "createParticleCloud src n k = cloud_loop src n 0 (new_Group, k)"

section \<open>render\<close>

text \<open>
  The module-level variables \<open>clock\<close>, \<open>composer\<close>, \<open>camera\<close>, \<open>objects\<close> and \<open>particles\<close>
  are \<open>undefined\<close> until \<open>initialize\<close> assigns them: each is an option in the state.
  Reading a property of \<open>undefined\<close> throws a \<open>TypeError\<close>. An exception leaves the
  mutations made before it in place, so a function that can throw returns the state it
  reached together with the exception, if any.

  What the libraries do inside their calls is not part of the program. The state keeps
  what the program passes to them: the clock counts the \<open>getDelta\<close> calls, the composer
  records its size, its passes and the deltas it was asked to render.
\<close>

datatype error = TypeError | LoadError string | LibraryError nat

record camera =
  fov :: real
  aspect :: real
  near :: real
  far :: real
  camera_position :: vector3
  projection_updates :: nat

record film_options =
  vignette :: bool
  eskil :: bool
  scanlines :: bool
  noise :: bool
  noiseIntensity :: real
  vignetteOffset :: real
  vignetteDarkness :: real

datatype pass = RenderPass | FilmPass film_options bool

record composer =
  composer_size :: "real \<times> real"
  passes :: "pass list"
  rendered :: "real list"

record renderer =
  antialias :: bool
  alpha :: bool
  shadowMap_enabled :: bool
  renderer_size :: "real \<times> real"
  clearColor :: nat

datatype light = HemisphereLight nat nat real | SpotLight nat vector3 real

text \<open>
  The children of the scene, in the order in which they are added. The two groups are
  the objects the module-level variables \<open>particles\<close> and \<open>objects\<close> refer to, so the
  scene names them instead of holding copies.
\<close>

datatype node = ParticlesGroup | ObjectsGroup | LightNode light

record scene =
  fog :: "(nat \<times> real) option"
  nodes :: "node list"

record controls =
  pointer_lock :: bool
  translation_enabled :: bool
  minPolarAngle :: real
  maxPolarAngle :: real
  zoom_enabled :: bool
  lookAt :: "vector3 option"

record world =
  clock :: "nat option"
  composer :: "composer option"
  camera :: "camera option"
  objects :: "group option"
  particles :: "group option"
  the_scene :: "scene option"
  the_renderer :: "renderer option"
  the_controls :: "controls option"
  viewport_children :: nat
  resize_listeners :: nat
  frames_requested :: nat
  drawn :: nat

definition initial_world :: world where
  "initial_world = \<lparr>clock = None, composer = None, camera = None, objects = None,
     particles = None, the_scene = None, the_renderer = None, the_controls = None,
     viewport_children = 0, resize_listeners = 0, frames_requested = 0, drawn = 0\<rparr>"

text \<open>
  What the environment decides in one frame: the delta that \<open>clock.getDelta()\<close> returns,
  and whether the library call \<open>composer.render(delta)\<close> throws.
\<close>

record frame =
  clock_delta :: real
  composer_fault :: "error option"

text \<open>
  The loop over \<open>objects.children\<close>, by index, with \<open>l = children.length\<close>. The statement
  \<open>rotation.y += delta * 0.5\<close> is a product and a sum, each rounded. The literal \<open>0.5\<close> is a
  double; the literal \<open>0.01\<close> of the particle group is not, and stands for the double nearest
  to it.
\<close>

function spin :: "real \<Rightarrow> nat \<Rightarrow> nat \<Rightarrow> object3d list \<Rightarrow> object3d list" where
  "spin delta i l cs =
    (if i < l
     then spin delta (Suc i) l
       (cs[i := (cs ! i)\<lparr>rotation := (rotation (cs ! i))
                 \<lparr>yc := fl (yc (rotation (cs ! i)) + fl (delta * 0.5))\<rparr>\<rparr>])
     else cs)"
  by pat_completeness auto
termination
  by (relation "measure (\<lambda>(delta, i, l, cs). l - i)") auto

definition render :: "frame \<Rightarrow> real \<Rightarrow> world \<Rightarrow> world \<times> error option" where
  "render fr now w =
    (let w = w\<lparr>frames_requested := Suc (frames_requested w)\<rparr> in
     case clock w of None \<Rightarrow> (w, Some TypeError) | Some reads \<Rightarrow>
     let delta = clock_delta fr;
         w = w\<lparr>clock := Some (Suc reads)\<rparr> in
     case objects w of None \<Rightarrow> (w, Some TypeError) | Some objs \<Rightarrow>
     let w = w\<lparr>objects := Some (objs\<lparr>children := spin delta 0 (length (children objs)) (children objs)\<rparr>)\<rparr> in
     case particles w of None \<Rightarrow> (w, Some TypeError) | Some ps \<Rightarrow>
     let w = w\<lparr>particles := Some (ps\<lparr>rotation := (rotation ps)
                 \<lparr>yc := fl (yc (rotation ps) + fl (delta * fl 0.01))\<rparr>\<rparr>)\<rparr> in
     case composer w of None \<Rightarrow> (w, Some TypeError) | Some cmp \<Rightarrow>
     (case composer_fault fr of
        Some e \<Rightarrow> (w, Some e)
      | None \<Rightarrow> (w\<lparr>composer := Some (cmp\<lparr>rendered := rendered cmp @ [delta]\<rparr>), drawn := Suc (drawn w)\<rparr>, None)))"

section \<open>initialize\<close>

text \<open>Decimal digits of a number, as \<open>"object" + i\<close> writes them.\<close>

function string_of_nat :: "nat \<Rightarrow> string" where
  "string_of_nat n =
    (if n < 10 then [char_of (48 + n)]
     else string_of_nat (n div 10) @ [char_of (48 + n mod 10)])"
  by pat_completeness auto
termination
  by (relation "measure id") auto

definition key :: "nat \<Rightarrow> string" where
  "key i = ''object'' @ string_of_nat i"

definition url :: "nat \<Rightarrow> string" where
  "url i = ''models/object'' @ string_of_nat i @ ''.obj''"

type_synonym assets = "string \<rightharpoonup> object3d"

text \<open>
  What \<open>initialize\<close> reads from the page: the size of the window, whether the element
  \<open>viewport\<close> exists, and the \<open>Math\<close> object of the engine with the number of values
  that \<open>Math.random\<close> has drawn so far. The aspect ratio \<open>width / height\<close> is a real number only for a
  window of non-zero height; nothing below depends on its value. The call
  \<open>createParticleCloud(2000)\<close> returns (lemma \<open>createParticleCloud_2000\<close>), so the branch of
  \<open>initialize\<close> for a call that does not return is never taken.
\<close>

record env =
  innerWidth :: real
  innerHeight :: real
  viewport_present :: bool
  math_object :: math
  entropy_drawn :: nat

text \<open>
  The loop that builds the ring. \<open>assets.get\<close> of a missing key is \<open>undefined\<close>, and the
  assignment to \<open>obj.position.x\<close> then throws; the group keeps the members added so far.
\<close>

function ring_loop :: "assets \<Rightarrow> nat \<Rightarrow> real \<Rightarrow> group \<Rightarrow> group \<times> error option" where
  "ring_loop assets i angle objs =
    (if i < 4
     then (case assets (key i) of
             None \<Rightarrow> (objs, Some TypeError)
           | Some obj \<Rightarrow>
               let obj = obj\<lparr>position := (position obj)\<lparr>xc := - 100.0 * cos angle\<rparr>\<rparr>;
                   obj = obj\<lparr>position := (position obj)\<lparr>zc := - 100.0 * sin angle\<rparr>\<rparr>
               in ring_loop assets (Suc i) (angle + (pi * 2.0) / 4.0) (add objs obj))
     else (objs, None))"
  by pat_completeness auto
termination
  by (relation "measure (\<lambda>(assets, i, angle, objs). 4 - i)") auto

definition film_pass_options :: film_options where
  "film_pass_options = \<lparr>vignette = True, eskil = True, scanlines = False, noise = True,
     noiseIntensity = 1.0, vignetteOffset = 1.0, vignetteDarkness = 1.8\<rparr>"

definition initialize :: "env \<Rightarrow> assets \<Rightarrow> world \<Rightarrow> world \<times> error option" where
  "initialize e assets w =
    (let width = innerWidth e;
         height = innerHeight e;
         aspect = width / height;
         w = w\<lparr>clock := Some 0\<rparr>;
         sc = \<lparr>fog = Some (0xf4f4f4, 0.005), nodes = []\<rparr>;
         rd = \<lparr>antialias = False, alpha = True, shadowMap_enabled = False,
                renderer_size = (width, height), clearColor = 0xf4f4f4\<rparr>;
         w = w\<lparr>the_scene := Some sc, the_renderer := Some rd\<rparr>
     in if \<not> viewport_present e then (w, Some TypeError) else
     let w = w\<lparr>viewport_children := Suc (viewport_children w)\<rparr>;
         w = w\<lparr>composer := Some \<lparr>composer_size = (width, height), passes = [], rendered = []\<rparr>\<rparr>;
         (ps, k) = (case createParticleCloud (math_object e) (Finite 2000) (entropy_drawn e) of
                      Some cloud \<Rightarrow> cloud
                    | None \<Rightarrow> (new_Group, entropy_drawn e));
         sc = sc\<lparr>nodes := nodes sc @ [ParticlesGroup]\<rparr>;
         w = w\<lparr>particles := Some ps, the_scene := Some sc\<rparr>;
         (objs, r) = ring_loop assets 0 0.0 new_Group;
         w = w\<lparr>objects := Some objs\<rparr>
     in case r of Some err \<Rightarrow> (w, Some err) | None \<Rightarrow>
     let sc = sc\<lparr>nodes := nodes sc @ [ObjectsGroup]\<rparr>;
         cam = \<lparr>fov = 45, aspect = aspect, near = 0.1, far = 1000,
                 camera_position = vset 0 10 0, projection_updates = 0\<rparr>;
         ctl = \<lparr>pointer_lock = False, translation_enabled = False,
                 minPolarAngle = pi / 2, maxPolarAngle = pi / 2, zoom_enabled = False,
                 lookAt = Some (vset 0 0 0)\<rparr>;
         sc = sc\<lparr>nodes := nodes sc @ [LightNode (HemisphereLight 0xff0000 0x340000 0.5)]\<rparr>;
         sc = sc\<lparr>nodes := nodes sc @ [LightNode (SpotLight 0xffffff (vset 0 200 0) 0.8)]\<rparr>;
         w = w\<lparr>camera := Some cam, the_controls := Some ctl, the_scene := Some sc\<rparr>;
         w = w\<lparr>composer := map_option (\<lambda>c. c\<lparr>passes := passes c @ [RenderPass]\<rparr>) (composer w)\<rparr>;
         w = w\<lparr>composer := map_option (\<lambda>c. c\<lparr>passes := passes c @ [FilmPass film_pass_options True]\<rparr>) (composer w)\<rparr>;
         w = w\<lparr>resize_listeners := Suc (resize_listeners w)\<rparr>
     in (w, None))"

section \<open>load\<close>

text \<open>
  The promise that \<open>load\<close> returns carries no value: it is pending, fulfilled, or rejected
  with a reason. \<open>resolve\<close> and \<open>reject\<close> settle a pending promise and do nothing to a
  settled one.
\<close>

datatype promise = Pending | Fulfilled | Rejected error

record loading =
  assets_of :: assets
  itemsLoaded :: nat
  itemsTotal :: nat
  promise :: promise
  console_log :: "string list"

definition resolve :: "loading \<Rightarrow> loading" where
  "resolve s = (if promise s = Pending then s\<lparr>promise := Fulfilled\<rparr> else s)"

definition reject :: "error \<Rightarrow> loading \<Rightarrow> loading" where
  "reject reason s = (if promise s = Pending then s\<lparr>promise := Rejected reason\<rparr> else s)"

text \<open>The three callbacks that \<open>load\<close> hands to the library.\<close>

definition onError :: "string \<Rightarrow> loading \<Rightarrow> loading" where
  "onError u s = reject (LoadError u) s"

definition onProgress :: "string \<Rightarrow> nat \<Rightarrow> nat \<Rightarrow> loading \<Rightarrow> loading" where
  "onProgress item loaded ttl s = (if loaded = ttl then resolve s else s)"

definition onLoad :: "nat \<Rightarrow> object3d \<Rightarrow> loading \<Rightarrow> loading" where
  "onLoad i obj s =
    (let s = s\<lparr>console_log := console_log s @ [''Loaded object '' @ string_of_nat i]\<rparr>
     in s\<lparr>assets_of := (assets_of s)(key i \<mapsto> obj)\<rparr>)"

text \<open>
  \<open>LoadingManager\<close> and \<open>OBJLoader\<close> belong to the rendering library, which is not part of
  the repository. Their part in loading is modelled by the callback protocol of the
  library's loading manager: starting a request counts it in \<open>itemsTotal\<close>; a request that
  ends is counted in \<open>itemsLoaded\<close> and reported to \<open>onProgress\<close> with both counts; a
  request that succeeds hands its object to the caller's callback before it ends; a
  request that fails is reported to \<open>onError\<close> and ends too. Releases of the library
  differ in whether a failed request ends before or after its error is reported, so that
  order is a parameter of the model.
\<close>

datatype manager_order = EndThenError | ErrorThenEnd

definition itemStart :: "string \<Rightarrow> loading \<Rightarrow> loading" where
  "itemStart u s = s\<lparr>itemsTotal := Suc (itemsTotal s)\<rparr>"

definition itemEnd :: "string \<Rightarrow> loading \<Rightarrow> loading" where
  "itemEnd u s =
    (let s = s\<lparr>itemsLoaded := Suc (itemsLoaded s)\<rparr>
     in onProgress u (itemsLoaded s) (itemsTotal s) s)"

definition itemError :: "string \<Rightarrow> loading \<Rightarrow> loading" where
  "itemError u s = onError u s"

text \<open>The loop of \<open>load\<close> that issues the four requests; each starts at once.\<close>

function request_loop :: "nat \<Rightarrow> loading \<Rightarrow> loading" where
  "request_loop i s = (if i < 4 then request_loop (Suc i) (itemStart (url i) s) else s)"
  by pat_completeness auto
termination
  by (relation "measure (\<lambda>(i, s). 4 - i)") auto

definition load :: "assets \<Rightarrow> loading" where
  "load assets =
    request_loop 0 \<lparr>assets_of = assets, itemsLoaded = 0, itemsTotal = 0, promise = Pending,
      console_log = []\<rparr>"

text \<open>
  After \<open>load\<close> has returned, the requests complete one at a time, in an order that the
  environment decides; each completion is one event: the number of the request and how it
  ended.
\<close>

datatype outcome = Success object3d | Failure

fun settle :: "manager_order \<Rightarrow> nat \<times> outcome \<Rightarrow> loading \<Rightarrow> loading" where
  "settle ord (i, Success obj) s = itemEnd (url i) (onLoad i obj s)"
| "settle EndThenError (i, Failure) s = itemError (url i) (itemEnd (url i) s)"
| "settle ErrorThenEnd (i, Failure) s = itemEnd (url i) (itemError (url i) s)"

fun settle_all :: "manager_order \<Rightarrow> (nat \<times> outcome) list \<Rightarrow> loading \<Rightarrow> loading" where
  "settle_all ord [] s = s"
| "settle_all ord (ev # evs) s = settle_all ord evs (settle ord ev s)"

text \<open>
  An execution of the four requests: each request completes at most once, and only the
  requests 0 to 3 exist. It is complete when all four have ended.
\<close>

definition execution :: "(nat \<times> outcome) list \<Rightarrow> bool" where
  "execution evs = (distinct (map fst evs) \<and> list_all (\<lambda>ev. fst ev < 4) evs)"

definition succeeds :: "nat \<times> outcome \<Rightarrow> bool" where
  "succeeds ev = (case snd ev of Success obj \<Rightarrow> True | Failure \<Rightarrow> False)"

section \<open>main\<close>

text \<open>
  The state of the whole program: the loading state, the scene state, the errors written
  by \<open>console.error\<close>, and a record of the calls of the startup chain in the order in
  which they happen (kept for stating the order; the program does not read it).
\<close>

datatype action =
    Settled promise
  | Call_initialize
  | Return_initialize
  | Call_render
  | Return_render
  | Console_error error

record program =
  ld :: loading
  wd :: world
  trace :: "action list"

definition log_action :: "action \<Rightarrow> program \<Rightarrow> program" where
  "log_action a p = p\<lparr>trace := trace p @ [a]\<rparr>"

text \<open>
  \<open>p.then(f)\<close> on a settled promise \<open>p\<close>: \<open>f\<close> runs if \<open>p\<close> is fulfilled, and the new promise
  is fulfilled if \<open>f\<close> returns and rejected with what \<open>f\<close> throws; a rejection of \<open>p\<close> is
  passed on and \<open>f\<close> does not run. \<open>p.catch(g)\<close> runs \<open>g\<close> on the reason of a rejection.
\<close>

definition then_promise ::
  "promise \<Rightarrow> (program \<Rightarrow> program \<times> error option) \<Rightarrow> program \<Rightarrow> program \<times> promise" where
  "then_promise pr f p =
    (case pr of
       Pending \<Rightarrow> (p, Pending)
     | Rejected reason \<Rightarrow> (p, Rejected reason)
     | Fulfilled \<Rightarrow> (case f p of (p', None) \<Rightarrow> (p', Fulfilled) | (p', Some e) \<Rightarrow> (p', Rejected e)))"

definition catch_promise ::
  "promise \<Rightarrow> (error \<Rightarrow> program \<Rightarrow> program \<times> error option) \<Rightarrow> program \<Rightarrow> program \<times> promise" where
  "catch_promise pr g p =
    (case pr of
       Pending \<Rightarrow> (p, Pending)
     | Fulfilled \<Rightarrow> (p, Fulfilled)
     | Rejected reason \<Rightarrow>
         (case g reason p of (p', None) \<Rightarrow> (p', Fulfilled) | (p', Some e) \<Rightarrow> (p', Rejected e)))"

text \<open>The three handlers of the chain in \<open>main\<close>.\<close>

definition call_initialize :: "env \<Rightarrow> program \<Rightarrow> program \<times> error option" where
  "call_initialize e p =
    (let p = log_action Call_initialize p;
         (w, r) = initialize e (assets_of (ld p)) (wd p);
         p = p\<lparr>wd := w\<rparr>
     in case r of Some err \<Rightarrow> (p, Some err) | None \<Rightarrow> (log_action Return_initialize p, None))"

definition call_render :: "frame \<Rightarrow> program \<Rightarrow> program \<times> error option" where
  "call_render fr p =
    (let p = log_action Call_render p;
         (w, r) = render fr 0 (wd p);
         p = p\<lparr>wd := w\<rparr>
     in case r of Some err \<Rightarrow> (p, Some err) | None \<Rightarrow> (log_action Return_render p, None))"

definition console_error :: "error \<Rightarrow> program \<Rightarrow> program \<times> error option" where
  "console_error err p = (log_action (Console_error err) p, None)"

text \<open>
  The chain \<open>load(assets).then(() => initialize(assets)).then(render).catch(...)\<close>, run
  when the promise of \<open>load\<close> has settled.
\<close>

definition chain :: "env \<Rightarrow> frame \<Rightarrow> program \<Rightarrow> program" where
  "chain e fr p =
    (let p = log_action (Settled (promise (ld p))) p;
         (p, p2) = then_promise (promise (ld p)) (call_initialize e) p;
         (p, p3) = then_promise p2 (call_render fr) p;
         (p, p4) = catch_promise p3 console_error p
     in p)"

text \<open>
  The completions of the requests arrive as events. The reactions of a promise run as
  soon as the event that settled it has been handled, before the next event.
\<close>

fun deliver :: "env \<Rightarrow> frame \<Rightarrow> manager_order \<Rightarrow> (nat \<times> outcome) list \<Rightarrow> program \<Rightarrow> program" where
  "deliver e fr ord [] p = p"
| "deliver e fr ord (ev # evs) p =
    (let before = promise (ld p);
         p = p\<lparr>ld := settle ord ev (ld p)\<rparr>;
         p = (if before = Pending \<and> promise (ld p) \<noteq> Pending then chain e fr p else p)
     in deliver e fr ord evs p)"

definition main :: "env \<Rightarrow> frame \<Rightarrow> manager_order \<Rightarrow> (nat \<times> outcome) list \<Rightarrow> program" where
  "main e fr ord evs =
    deliver e fr ord evs \<lparr>ld = load Map.empty, wd = initial_world, trace = []\<rparr>"

section \<open>onResize\<close>

text \<open>
  Time is counted in milliseconds. A pending timeout is its handle, the time at which it
  is due and the event it will pass to \<open>handleResize\<close>. The target of every resize event
  is the window, so \<open>event.target.innerWidth\<close> is the width of the window at the time it is
  read. The list \<open>handled\<close> records each call of \<open>handleResize\<close>, with its time and the size
  it used (kept for stating the claims; the program does not read it).
\<close>

datatype event_target = Window

record event =
  target :: event_target
  timeStamp :: nat

record page =
  id :: nat
  timeouts :: "(nat \<times> nat \<times> event) list"
  last_handle :: nat
  window_innerWidth :: real
  window_innerHeight :: real
  composer_width :: real
  composer_height :: real
  camera_aspect :: real
  camera_updates :: nat
  handled :: "(nat \<times> real \<times> real) list"

definition handleResize :: "nat \<Rightarrow> event \<Rightarrow> page \<Rightarrow> page" where
  "handleResize now ev s =
    (let width = (case target ev of Window \<Rightarrow> window_innerWidth s);
         height = (case target ev of Window \<Rightarrow> window_innerHeight s);
         s = s\<lparr>composer_width := width, composer_height := height\<rparr>;
         s = s\<lparr>camera_aspect := width / height\<rparr>;
         s = s\<lparr>camera_updates := Suc (camera_updates s)\<rparr>;
         s = s\<lparr>handled := handled s @ [(now, width, height)]\<rparr>
     in s\<lparr>id := 0\<rparr>)"

text \<open>\<open>setTimeout\<close> returns a fresh handle, which is never 0.\<close>

definition setTimeout :: "nat \<Rightarrow> nat \<Rightarrow> event \<Rightarrow> page \<Rightarrow> nat \<times> page" where
  "setTimeout now delay ev s =
    (let h = Suc (last_handle s)
     in (h, s\<lparr>last_handle := h, timeouts := timeouts s @ [(h, now + delay, ev)]\<rparr>))"

definition onResize :: "nat \<Rightarrow> event \<Rightarrow> page \<Rightarrow> page" where
  "onResize now ev s =
    (if id s = 0
     then (case setTimeout now 66 ev s of (h, s') \<Rightarrow> s'\<lparr>id := h\<rparr>)
     else s)"

text \<open>
  The event loop up to the time \<open>now\<close>: every timeout that is due by then fires, at the
  time at which it is due, in the order in which the timeouts were set (all have the same
  delay, so that is the order in which they are due).
\<close>

fun fire :: "nat \<Rightarrow> (nat \<times> nat \<times> event) list \<Rightarrow> page \<Rightarrow> page" where
  "fire now [] s = s"
| "fire now ((h, due, ev) # ts) s =
    (if due \<le> now
     then fire now ts (handleResize due ev (s\<lparr>timeouts := filter (\<lambda>t. fst t \<noteq> h) (timeouts s)\<rparr>))
     else fire now ts s)"

definition advance :: "nat \<Rightarrow> page \<Rightarrow> page" where
  "advance now s = fire now (timeouts s) s"

text \<open>
  A resize of the window at time \<open>t\<close> to the size \<open>(w, h)\<close>: the timeouts due by then have
  fired, the window has its new size, and the resize event is dispatched to \<open>onResize\<close>.
\<close>

definition resize :: "nat \<times> real \<times> real \<Rightarrow> page \<Rightarrow> page" where
  "resize r s =
    (case r of (t, w, h) \<Rightarrow>
       let s = advance t s;
           s = s\<lparr>window_innerWidth := w, window_innerHeight := h\<rparr>
       in onResize t \<lparr>target = Window, timeStamp = t\<rparr> s)"

fun resizes :: "(nat \<times> real \<times> real) list \<Rightarrow> page \<Rightarrow> page" where
  "resizes [] s = s"
| "resizes (r # rs) s = resizes rs (resize r s)"

text \<open>
  A burst of resize events, and then enough time for every timeout to fire: the event
  loop runs up to the last time at which one is due.
\<close>

definition latest :: "page \<Rightarrow> nat" where
  "latest s = fold max (map (\<lambda>t. fst (snd t)) (timeouts s)) 0"

definition burst :: "(nat \<times> real \<times> real) list \<Rightarrow> page \<Rightarrow> page" where
  "burst rs s = (let s = resizes rs s in advance (latest s) s)"

definition idle :: "real \<Rightarrow> real \<Rightarrow> page" where
  "idle w h = \<lparr>id = 0, timeouts = [], last_handle = 0, window_innerWidth = w,
     window_innerHeight = h, composer_width = w, composer_height = h, camera_aspect = w / h,
     camera_updates = 0, handled = []\<rparr>"

section \<open>Auxiliary definitions\<close>

text \<open>One step of the loop of \<open>render\<close> on a ring member, and the placement of ring member \<open>i\<close>.\<close>

definition turn :: "real \<Rightarrow> object3d \<Rightarrow> object3d" where
  "turn delta ob = ob\<lparr>rotation := (rotation ob)\<lparr>yc := fl (yc (rotation ob) + fl (delta * 0.5))\<rparr>\<rparr>"

text \<open>
  The loop of \<open>createParticleCloud\<close> does not end from a counter \<open>i\<close> below \<open>n\<close> when \<open>n\<close> is
  \<open>Infinity\<close>, or when \<open>i\<close> is \<open>2 ^ 53\<close>, where \<open>i + 1\<close> rounds back to \<open>i\<close>.
\<close>

definition stuck :: "number \<Rightarrow> real \<Rightarrow> bool" where
  "stuck n i = (less_than i n \<and> (n = Infinity \<or> i = 2 ^ 53))"

definition place :: "nat \<Rightarrow> object3d \<Rightarrow> object3d" where
  "place i ob = ob\<lparr>position := (position ob)\<lparr>xc := - 100 * cos (real i * (pi / 2)),
                                             zc := - 100 * sin (real i * (pi / 2))\<rparr>\<rparr>"

text \<open>The state of the page while the timeout set at time \<open>t0\<close> is pending.\<close>

definition pending_since :: "nat \<Rightarrow> page \<Rightarrow> bool" where
  "pending_since t0 s = (id s \<noteq> 0 \<and>
     timeouts s = [(id s, t0 + 66, \<lparr>target = Window, timeStamp = t0\<rparr>)] \<and> handled s = [])"

text \<open>
  What the chain does to the scene state and which calls it makes, by the state of the
  promise of \<open>load\<close> and the outcomes of \<open>initialize\<close> and \<open>render\<close>.
\<close>

definition startup :: "env \<Rightarrow> frame \<Rightarrow> assets \<Rightarrow> world \<Rightarrow> promise \<Rightarrow> world \<times> action list" where
  "startup e fr a w pr =
    (case pr of
       Pending \<Rightarrow> (w, [Settled Pending])
     | Rejected reason \<Rightarrow> (w, [Settled (Rejected reason), Console_error reason])
     | Fulfilled \<Rightarrow>
        (case initialize e a w of
           (w1, Some err) \<Rightarrow> (w1, [Settled Fulfilled, Call_initialize, Console_error err])
         | (w1, None) \<Rightarrow>
            (case render fr 0 w1 of
               (w2, Some err) \<Rightarrow>
                 (w2, [Settled Fulfilled, Call_initialize, Return_initialize, Call_render,
                       Console_error err])
             | (w2, None) \<Rightarrow>
                 (w2, [Settled Fulfilled, Call_initialize, Return_initialize, Call_render,
                       Return_render]))))"

text \<open>Concrete inputs: four loaded objects, a page, a frame, a small scene.\<close>

definition sample_object :: "nat \<Rightarrow> object3d" where
  "sample_object i = \<lparr>position = vset 1 (real i) 2, rotation = vset 0 0 0, handle = 10 + i\<rparr>"

definition sample_assets :: assets where
  "sample_assets =
    [key 0 \<mapsto> sample_object 0, key 1 \<mapsto> sample_object 1, key 2 \<mapsto> sample_object 2,
     key 3 \<mapsto> sample_object 3]"

text \<open>The largest double below 1, and so the largest value of \<open>Math.random()\<close>.\<close>

definition below_one :: real where
  "below_one = 1 - 1 / 2 ^ 53"

text \<open>The group \<open>g\<close> after \<open>m\<close> iterations of the loop of \<open>createParticleCloud\<close> from draw \<open>k\<close>.\<close>

definition grown :: "math \<Rightarrow> nat \<Rightarrow> nat \<Rightarrow> group \<Rightarrow> group" where
  "grown src k m g =
    g\<lparr>children := children g @ map (\<lambda>j. fst (particle src (k + 6 * j))) [0..<m]\<rparr>"

text \<open>Two engines with a correctly rounded cosine and sine, and a constant entropy source.\<close>

definition half_source :: math where
  "half_source =
    \<lparr>random_values = (\<lambda>j. 1 / 2), cos_values = (\<lambda>x. fl (cos x)),
     sin_values = (\<lambda>x. fl (sin x))\<rparr>"

definition top_source :: math where
  "top_source =
    \<lparr>random_values = (\<lambda>j. below_one), cos_values = (\<lambda>x. fl (cos x)),
     sin_values = (\<lambda>x. fl (sin x))\<rparr>"

definition sample_env :: env where
  "sample_env = \<lparr>innerWidth = 800, innerHeight = 600, viewport_present = True,
     math_object = half_source, entropy_drawn = 0\<rparr>"

definition sample_frame :: frame where
  "sample_frame = \<lparr>clock_delta = 1 / 64, composer_fault = None\<rparr>"

definition sample_world :: world where
  "sample_world = initial_world\<lparr>clock := Some 0,
     composer := Some \<lparr>composer_size = (800, 600), passes = [], rendered = []\<rparr>,
     objects := Some (add (add new_Group (sample_object 0)) (sample_object 1)),
     particles := Some new_Group\<rparr>"

text \<open>
  A ring member turned by the double nearest to 0.1, and a frame whose delta is the double
  nearest to 0.4.
\<close>

definition tenth_world :: world where
  "tenth_world = sample_world\<lparr>objects :=
     Some (add new_Group ((sample_object 0)\<lparr>rotation := vset 0 (fl 0.1) 0\<rparr>))\<rparr>"

definition tenth_frame :: frame where
  "tenth_frame = \<lparr>clock_delta = fl 0.4, composer_fault = None\<rparr>"

definition sample_loads :: "(nat \<times> outcome) list" where
  "sample_loads = [(2, Success (sample_object 2)), (0, Success (sample_object 0)),
     (3, Success (sample_object 3)), (1, Success (sample_object 1))]"

declare spin.simps [simp del]
declare ring_loop.simps [simp del]
declare request_loop.simps [simp del]
declare string_of_nat.simps [simp del]

section \<open>Rounding\<close>

lemma powr_powi: "(2::real) powr real_of_int k = 2 powi k"
  by (simp add: powr_real_of_int power_int_def power_one_over inverse_eq_divide)

lemma exponent_iff: "x \<noteq> 0 \<Longrightarrow> exponent x = e \<longleftrightarrow> 2 powi e \<le> \<bar>x\<bar> \<and> \<bar>x\<bar> < 2 powi (e + 1)"
  unfolding exponent_def
  using floor_log_eq_powr_iff[of "\<bar>x\<bar>" 2 e] powr_powi[of e] powr_powi[of "e + 1"]
  by simp

lemma exponent_eq: "2 powi e \<le> \<bar>x\<bar> \<Longrightarrow> \<bar>x\<bar> < 2 powi (e + 1) \<Longrightarrow> exponent x = e"
proof -
  assume a: "2 powi e \<le> \<bar>x\<bar>" "\<bar>x\<bar> < 2 powi (e + 1)"
  have "(0::real) < 2 powi e" by simp
  with a(1) have "0 < \<bar>x\<bar>" by linarith
  then have "x \<noteq> 0" by simp
  with a show ?thesis by (simp add: exponent_iff)
qed

lemma exponent_bounds: "x \<noteq> 0 \<Longrightarrow> 2 powi exponent x \<le> \<bar>x\<bar> \<and> \<bar>x\<bar> < 2 powi (exponent x + 1)"
  using exponent_iff[of x "exponent x"] by simp

lemma fl_eval:
  "2 powi e \<le> \<bar>x\<bar> \<Longrightarrow> \<bar>x\<bar> < 2 powi (e + 1) \<Longrightarrow>
   fl x = of_int (round_even (x / 2 powi (e - 52))) * 2 powi (e - 52)"
proof -
  assume a: "2 powi e \<le> \<bar>x\<bar>" "\<bar>x\<bar> < 2 powi (e + 1)"
  have "(0::real) < 2 powi e" by simp
  with a(1) have "0 < \<bar>x\<bar>" by linarith
  then have "x \<noteq> 0" by simp
  then show ?thesis by (simp add: fl_def exponent_eq[OF a])
qed

lemma round_even_cases:
  "round_even y = \<lfloor>y\<rfloor> \<and> y - of_int \<lfloor>y\<rfloor> \<le> 1 / 2 \<or>
   round_even y = \<lfloor>y\<rfloor> + 1 \<and> 1 / 2 \<le> y - of_int \<lfloor>y\<rfloor>"
  by (simp add: round_even_def Let_def)

lemma round_even_of_int [simp]: "round_even (of_int m) = m"
  by (simp add: round_even_def)

lemma round_even_mono: "x \<le> y \<Longrightarrow> round_even x \<le> round_even y"
proof -
  assume le: "x \<le> y"
  then have fl: "\<lfloor>x\<rfloor> \<le> \<lfloor>y\<rfloor>" by (rule floor_mono)
  show ?thesis
  proof (cases "\<lfloor>x\<rfloor> = \<lfloor>y\<rfloor>")
    case True
    then show ?thesis using le by (auto simp: round_even_def Let_def)
  next
    case False
    with fl have "\<lfloor>x\<rfloor> + 1 \<le> \<lfloor>y\<rfloor>" by simp
    moreover have "round_even x \<le> \<lfloor>x\<rfloor> + 1" using round_even_cases[of x] by auto
    moreover have "\<lfloor>y\<rfloor> \<le> round_even y" using round_even_cases[of y] by auto
    ultimately show ?thesis by linarith
  qed
qed

lemma round_even_minus: "round_even (- y) = - round_even y"
proof (cases "y = of_int \<lfloor>y\<rfloor>")
  case True
  then have "round_even (- of_int \<lfloor>y\<rfloor>) = - round_even (of_int \<lfloor>y\<rfloor>)"
    by (metis of_int_minus round_even_of_int)
  with True show ?thesis by simp
next
  case False
  have "of_int \<lfloor>y\<rfloor> \<le> y" by (rule of_int_floor_le)
  with False have lt: "of_int \<lfloor>y\<rfloor> < y" by linarith
  have "\<lfloor>- y\<rfloor> = - \<lfloor>y\<rfloor> - 1"
    using lt by (intro floor_unique) (simp_all, linarith+)
  then show ?thesis
    using lt by (auto simp: round_even_def Let_def)
qed

lemma fl_zero [simp]: "fl 0 = 0"
  by (simp add: fl_def)

lemma exponent_minus [simp]: "exponent (- x) = exponent x"
  by (simp add: exponent_def)

lemma fl_minus: "fl (- x) = - fl x"
  by (simp add: fl_def round_even_minus)

lemma grid_low: "(2::real) powi e = 2 ^ 52 * 2 powi (e - 52)"
  using power_int_add[of "2::real" 52 "e - 52"] by simp

lemma grid_high: "(2::real) powi (e + 1) = 2 ^ 53 * 2 powi (e - 52)"
  using power_int_add[of "2::real" 53 "e - 52"] by (simp add: add.commute)

lemma fl_pos_bounds:
  assumes "0 < x"
  shows "2 powi exponent x \<le> fl x" and "fl x \<le> 2 powi (exponent x + 1)"
proof -
  let ?e = "exponent x"
  let ?g = "(2::real) powi (?e - 52)"
  have g: "0 < ?g" by simp
  have x: "x \<noteq> 0" "\<bar>x\<bar> = x" using assms by simp_all
  from exponent_bounds[OF x(1)] have b: "2 ^ 52 * ?g \<le> x" "x < 2 ^ 53 * ?g"
    unfolding x(2) grid_low[symmetric] grid_high[symmetric] by simp_all
  have lo: "2 ^ 52 \<le> x / ?g" using b(1) g by (simp add: pos_le_divide_eq)
  have hi: "x / ?g \<le> 2 ^ 53" using b(2) g by (simp add: pos_divide_le_eq)
  have "round_even (of_int (2 ^ 52)) \<le> round_even (x / ?g)"
    by (rule round_even_mono) (use lo in simp)
  then have rlo: "2 ^ 52 \<le> round_even (x / ?g)" by (simp only: round_even_of_int)
  have "round_even (x / ?g) \<le> round_even (of_int (2 ^ 53))"
    by (rule round_even_mono) (use hi in simp)
  then have rhi: "round_even (x / ?g) \<le> 2 ^ 53" by (simp only: round_even_of_int)
  have flx: "fl x = of_int (round_even (x / ?g)) * ?g" using x by (simp add: fl_def)
  have "(2::real) ^ 52 \<le> of_int (round_even (x / ?g))" using rlo
    by (metis of_int_le_iff of_int_numeral of_int_power)
  then show "2 powi ?e \<le> fl x"
    unfolding flx grid_low[of ?e] using g by (simp add: mult_right_mono)
  have "of_int (round_even (x / ?g)) \<le> (2::real) ^ 53" using rhi
    by (metis of_int_le_iff of_int_numeral of_int_power)
  then show "fl x \<le> 2 powi (?e + 1)"
    unfolding flx grid_high[of ?e] using g by (simp add: mult_right_mono)
qed

lemma exponent_mono: "0 < x \<Longrightarrow> x \<le> y \<Longrightarrow> exponent x \<le> exponent y"
  unfolding exponent_def by (intro floor_mono) simp

lemma fl_mono_pos:
  assumes "0 < x" "x \<le> y"
  shows "fl x \<le> fl y"
proof (cases "exponent x = exponent y")
  case True
  let ?g = "(2::real) powi (exponent y - 52)"
  have g: "0 < ?g" by simp
  have "x / ?g \<le> y / ?g" using assms g by (simp add: divide_right_mono)
  then have "round_even (x / ?g) \<le> round_even (y / ?g)" by (rule round_even_mono)
  then have "real_of_int (round_even (x / ?g)) * ?g \<le> real_of_int (round_even (y / ?g)) * ?g"
    using g by (simp add: mult_right_mono)
  then show ?thesis using assms True by (simp add: fl_def)
next
  case False
  with exponent_mono[OF assms] have "exponent x + 1 \<le> exponent y" by simp
  then have "(2::real) powi (exponent x + 1) \<le> 2 powi exponent y"
    by (intro power_int_increasing) simp_all
  moreover have "0 < y" using assms by simp
  ultimately show ?thesis
    using fl_pos_bounds(2)[OF assms(1)] fl_pos_bounds(1)[OF \<open>0 < y\<close>] by linarith
qed

lemma fl_pos: "0 < x \<Longrightarrow> 0 < fl x"
proof -
  assume "0 < x"
  from fl_pos_bounds(1)[OF this] have "2 powi exponent x \<le> fl x" .
  moreover have "(0::real) < 2 powi exponent x" by simp
  ultimately show ?thesis by linarith
qed

lemma fl_mono: "x \<le> y \<Longrightarrow> fl x \<le> fl y"
proof -
  assume le: "x \<le> y"
  consider "0 < x" | "x \<le> 0" "0 \<le> y" | "y < 0" by linarith
  then show ?thesis
  proof cases
    case 1
    then show ?thesis using le by (rule fl_mono_pos)
  next
    case 2
    have "fl x \<le> 0"
    proof (cases "x = 0")
      case True then show ?thesis by simp
    next
      case False
      with 2 have "0 < - x" by simp
      from fl_pos[OF this] show ?thesis by (simp add: fl_minus)
    qed
    moreover have "0 \<le> fl y"
    proof (cases "y = 0")
      case True then show ?thesis by simp
    next
      case False
      with 2 have "0 < y" by simp
      from fl_pos[OF this] show ?thesis by simp
    qed
    ultimately show ?thesis by linarith
  next
    case 3
    then have "0 < - y" "- y \<le> - x" using le by simp_all
    from fl_mono_pos[OF this] show ?thesis by (simp add: fl_minus)
  qed
qed

lemma fl_grid:
  assumes "\<bar>m\<bar> < 2 ^ 53" 
  shows "fl (of_int m * 2 powi p) = of_int m * 2 powi p"
proof (cases "m = 0")
  case True
  then show ?thesis by simp
next
  case False
  let ?x = "real_of_int m * 2 powi p"
  let ?e = "exponent ?x"
  have x0: "?x \<noteq> 0" using False by simp
  have ax: "\<bar>?x\<bar> = real_of_int \<bar>m\<bar> * 2 powi p" by (simp add: abs_mult)
  from exponent_bounds[OF x0] have lo: "2 powi ?e \<le> real_of_int \<bar>m\<bar> * 2 powi p"
    unfolding ax by simp
  have "real_of_int \<bar>m\<bar> < 2 ^ 53" using assms
    by (metis of_int_less_iff of_int_numeral of_int_power)
  then have "real_of_int \<bar>m\<bar> * 2 powi p < 2 ^ 53 * (2::real) powi p"
    by (simp add: mult_strict_right_mono)
  with lo have "(2::real) powi ?e < 2 ^ 53 * 2 powi p" by linarith
  also have "\<dots> = 2 powi (p + 53)"
    using power_int_add[of "2::real" 53 p] by (simp add: add.commute)
  finally have "(2::real) powi ?e < 2 powi (p + 53)" .
  then have "?e < p + 53"
    using power_int_increasing[of "p + 53" ?e "2::real"] by (cases "?e < p + 53") simp_all
  then have pe: "0 \<le> p - (?e - 52)" by simp
  have "?x / 2 powi (?e - 52) = of_int m * 2 powi (p - (?e - 52))"
    by (simp add: power_int_diff)
  also have "\<dots> = of_int (m * 2 ^ nat (p - (?e - 52)))"
    using pe by (simp add: power_int_def)
  finally have "round_even (?x / 2 powi (?e - 52)) = m * 2 ^ nat (p - (?e - 52))"
    by (simp only: round_even_of_int)
  then have "fl ?x = of_int (m * 2 ^ nat (p - (?e - 52))) * 2 powi (?e - 52)"
    using x0 by (simp add: fl_def)
  also have "\<dots> = of_int m * (2 powi (p - (?e - 52)) * 2 powi (?e - 52))"
    using pe by (simp add: power_int_def)
  also have "2 powi (p - (?e - 52)) * 2 powi (?e - 52) = (2::real) powi p"
    using power_int_add[of "2::real" "p - (?e - 52)" "?e - 52"] by simp
  finally show ?thesis .
qed

lemma fl_nat: "k \<le> 2 ^ 53 \<Longrightarrow> fl (real k) = real k"
proof (cases "k = 2 ^ 53")
  case True
  have "fl (2 ^ 53) = 2 ^ 53"
    by (subst fl_eval[of 53]) (simp_all add: round_even_def Let_def)
  with True show ?thesis by simp
next
  case False
  assume "k \<le> 2 ^ 53"
  with False have "k < 2 ^ 53" by simp
  then have "\<bar>int k\<bar> < 2 ^ 53" by (metis abs_of_nat of_nat_less_iff of_nat_numeral of_nat_power)
  from fl_grid[OF this, of 0] show ?thesis by simp
qed

lemma arctan_bounds:
  assumes "0 < x" "x \<le> 1"
  shows "(\<Sum>i<2 * n. (- 1) ^ i * (1 / real (i * 2 + 1) * x ^ (i * 2 + 1))) \<le> arctan x"
    and "arctan x \<le> (\<Sum>i<2 * n + 1. (- 1) ^ i * (1 / real (i * 2 + 1) * x ^ (i * 2 + 1)))"
proof -
  have ax: "\<bar>x\<bar> \<le> 1" using assms by simp
  have a0: "0 < 1 / real (0 * 2 + 1) * x ^ (0 * 2 + 1)" using assms by simp
  note l = summable_Leibniz(2)[OF zeroseq_arctan_series[OF ax] monoseq_arctan_series[OF ax],
      rule_format, OF a0, of n]
  show "(\<Sum>i<2 * n. (- 1) ^ i * (1 / real (i * 2 + 1) * x ^ (i * 2 + 1))) \<le> arctan x"
    using l unfolding arctan_series[OF ax] by simp
  show "arctan x \<le> (\<Sum>i<2 * n + 1. (- 1) ^ i * (1 / real (i * 2 + 1) * x ^ (i * 2 + 1)))"
    using l unfolding arctan_series[OF ax] by simp
qed

lemma Math_PI_less_pi: "Math_PI < pi"
proof -
  have lo: "(\<Sum>i<2 * 7. (- 1) ^ i * (1 / real (i * 2 + 1) * (1 / 5) ^ (i * 2 + 1))) \<le> arctan (1 / 5)"
    by (rule arctan_bounds(1)) simp_all
  have hi: "arctan (1 / 239) \<le> (\<Sum>i<2 * 2 + 1. (- 1) ^ i * (1 / real (i * 2 + 1) * (1 / 239) ^ (i * 2 + 1)))"
    by (rule arctan_bounds(2)) simp_all
  have "pi = 16 * arctan (1 / 5) - 4 * arctan (1 / 239)"
    using machin by simp
  then have "16 * (\<Sum>i<2 * 7. (- 1) ^ i * (1 / real (i * 2 + 1) * (1 / 5) ^ (i * 2 + 1)))
      - 4 * (\<Sum>i<2 * 2 + 1. (- 1) ^ i * (1 / real (i * 2 + 1) * (1 / 239) ^ (i * 2 + 1))) \<le> pi"
    using lo hi by linarith
  moreover have "Math_PI < 16 * (\<Sum>i<2 * 7. (- 1) ^ i * (1 / real (i * 2 + 1) * (1 / 5) ^ (i * 2 + 1)))
      - 4 * (\<Sum>i<2 * 2 + 1. (- 1) ^ i * (1 / real (i * 2 + 1) * (1 / 239) ^ (i * 2 + 1)))"
    by (simp add: Math_PI_def eval_nat_numeral sum.lessThan_Suc)
  ultimately show ?thesis by linarith
qed

lemma round_even_error: "\<bar>real_of_int (round_even y) - y\<bar> \<le> 1 / 2"
  using round_even_cases[of y] of_int_floor_le[of y] by (auto simp: abs_le_iff)

lemma fl_error: "\<bar>fl x - x\<bar> \<le> \<bar>x\<bar> / 2 ^ 53"
proof (cases "x = 0")
  case True
  then show ?thesis by simp
next
  case False
  let ?g = "(2::real) powi (exponent x - 52)"
  have g: "0 < ?g" by simp
  have "fl x - x = (real_of_int (round_even (x / ?g)) - x / ?g) * ?g"
    using False g by (simp add: fl_def algebra_simps)
  then have "\<bar>fl x - x\<bar> = \<bar>real_of_int (round_even (x / ?g)) - x / ?g\<bar> * ?g"
    using g by (simp add: abs_mult)
  also have "\<dots> \<le> 1 / 2 * ?g"
    using round_even_error[of "x / ?g"] g by (intro mult_right_mono) simp_all
  also have "\<dots> \<le> \<bar>x\<bar> / 2 ^ 53"
    using exponent_bounds[OF False] unfolding grid_low[of "exponent x"] by simp
  finally show ?thesis .
qed

lemma exponent_half: "x \<noteq> 0 \<Longrightarrow> exponent (x / 2) = exponent x - 1"
proof -
  assume x: "x \<noteq> 0"
  from exponent_bounds[OF x] have b: "2 powi exponent x \<le> \<bar>x\<bar>" "\<bar>x\<bar> < 2 powi (exponent x + 1)"
    by simp_all
  have p: "(2::real) powi exponent x = 2 * 2 powi (exponent x - 1)"
    "(2::real) powi (exponent x + 1) = 2 * 2 powi (exponent x - 1 + 1)"
    using power_int_add[of "2::real" 1 "exponent x - 1"] power_int_add[of "2::real" 1 "exponent x"]
    by (simp_all add: add.commute)
  show ?thesis
    by (rule exponent_eq) (use b p in simp_all)
qed

lemma fl_half: "fl (x / 2) = fl x / 2"
proof (cases "x = 0")
  case True
  then show ?thesis by simp
next
  case False
  have g: "(2::real) powi (exponent x - 52) = 2 * 2 powi (exponent x - 1 - 52)"
    using power_int_add[of "2::real" 1 "exponent x - 1 - 52"] by (simp add: add.commute)
  have "x / 2 / 2 powi (exponent x - 1 - 52) = x / 2 powi (exponent x - 52)"
    unfolding g by simp
  then have "fl (x / 2) = real_of_int (round_even (x / 2 powi (exponent x - 52))) *
      2 powi (exponent x - 1 - 52)"
    using False by (simp add: fl_def exponent_half)
  also have "\<dots> = fl x / 2"
    using False unfolding fl_def g by simp
  finally show ?thesis .
qed

lemma round_even_near:
  "real_of_int m \<le> y \<Longrightarrow> y < real_of_int m + 1 / 2 \<Longrightarrow> round_even y = m"
proof -
  assume a: "real_of_int m \<le> y" "y < real_of_int m + 1 / 2"
  then have "\<lfloor>y\<rfloor> = m" by (intro floor_unique) simp_all
  then show ?thesis using a by (simp add: round_even_def Let_def)
qed

lemma pi_less: "pi < Math_PI + 1 / 2 ^ 52"
proof -
  have hi: "arctan (1 / 5) \<le> (\<Sum>i<2 * 7 + 1. (- 1) ^ i * (1 / real (i * 2 + 1) * (1 / 5) ^ (i * 2 + 1)))"
    by (rule arctan_bounds(2)) simp_all
  have lo: "(\<Sum>i<2 * 2. (- 1) ^ i * (1 / real (i * 2 + 1) * (1 / 239) ^ (i * 2 + 1))) \<le> arctan (1 / 239)"
    by (rule arctan_bounds(1)) simp_all
  have "pi = 16 * arctan (1 / 5) - 4 * arctan (1 / 239)"
    using machin by simp
  then have "pi \<le> 16 * (\<Sum>i<2 * 7 + 1. (- 1) ^ i * (1 / real (i * 2 + 1) * (1 / 5) ^ (i * 2 + 1)))
      - 4 * (\<Sum>i<2 * 2. (- 1) ^ i * (1 / real (i * 2 + 1) * (1 / 239) ^ (i * 2 + 1)))"
    using lo hi by linarith
  moreover have "16 * (\<Sum>i<2 * 7 + 1. (- 1) ^ i * (1 / real (i * 2 + 1) * (1 / 5) ^ (i * 2 + 1)))
      - 4 * (\<Sum>i<2 * 2. (- 1) ^ i * (1 / real (i * 2 + 1) * (1 / 239) ^ (i * 2 + 1)))
      < Math_PI + 1 / 2 ^ 52"
    by (simp add: Math_PI_def eval_nat_numeral sum.lessThan_Suc)
  ultimately show ?thesis by linarith
qed

lemma Math_PI_nearest: "fl pi = Math_PI"
proof -
  have e: "fl pi = of_int (round_even (pi / 2 powi (1 - 52))) * 2 powi (1 - 52)"
    by (rule fl_eval) (use pi_ge_two pi_less_4 in simp_all)
  have m: "real_of_int 7074237752028440 = Math_PI * 2 ^ 51" by (simp add: Math_PI_def)
  have "round_even (pi / 2 powi (1 - 52)) = 7074237752028440"
  proof (rule round_even_near)
    show "real_of_int 7074237752028440 \<le> pi / 2 powi (1 - 52)"
      unfolding m using Math_PI_less_pi by (simp add: power_int_minus field_simps)
    show "pi / 2 powi (1 - 52) < real_of_int 7074237752028440 + 1 / 2"
      unfolding m using pi_less by (simp add: power_int_minus field_simps)
  qed
  then show ?thesis unfolding e by (simp add: Math_PI_def power_int_minus)
qed

lemma fl_idem_aux: "fl 120 = 120" "fl 140 = 140" "fl (- 60) = - 60" "fl 160 = 160" "fl 20 = 20"
  using fl_grid[of 120 0] fl_grid[of 140 0] fl_grid[of "- 60" 0] fl_grid[of 160 0] fl_grid[of 20 0]
  by simp_all

lemma two_pi: "fl (Math_PI * 2) = Math_PI * 2"
  unfolding Math_PI_def by (subst fl_eval[of 2]) (simp_all add: round_even_def Let_def)

lemma top_values:
  "fl (below_one * (Math_PI * 2)) = Math_PI * 2 - 1 / 2 ^ 50"
  "fl (Math_PI * 2 - 1 / 2 ^ 50 + 0) = Math_PI * 2 - 1 / 2 ^ 50"
  "fl (below_one * 20) = 20 - 1 / 2 ^ 48"
  "fl (20 - 1 / 2 ^ 48 + 120) = 140"
  "fl (below_one * 160) = 160 - 1 / 2 ^ 45"
  "fl (160 - 1 / 2 ^ 45 + - 60) = 100 - 1 / 2 ^ 45"
  "fl (below_one * Math_PI) = Math_PI - 1 / 2 ^ 51"
proof -
  show "fl (below_one * (Math_PI * 2)) = Math_PI * 2 - 1 / 2 ^ 50"
    unfolding Math_PI_def below_one_def
    by (subst fl_eval[of 2]) (simp_all add: round_even_def Let_def)
  show "fl (Math_PI * 2 - 1 / 2 ^ 50 + 0) = Math_PI * 2 - 1 / 2 ^ 50"
    unfolding Math_PI_def
    by (subst fl_eval[of 2]) (simp_all add: round_even_def Let_def)
  show "fl (below_one * 20) = 20 - 1 / 2 ^ 48"
    unfolding below_one_def
    by (subst fl_eval[of 4]) (simp_all add: round_even_def Let_def)
  show "fl (20 - 1 / 2 ^ 48 + 120) = 140"
    by (subst fl_eval[of 7]) (simp_all add: round_even_def Let_def)
  show "fl (below_one * 160) = 160 - 1 / 2 ^ 45"
    unfolding below_one_def
    by (subst fl_eval[of 7]) (simp_all add: round_even_def Let_def)
  show "fl (160 - 1 / 2 ^ 45 + - 60) = 100 - 1 / 2 ^ 45"
    by (subst fl_eval[of 6]) (simp_all add: round_even_def Let_def)
  show "fl (below_one * Math_PI) = Math_PI - 1 / 2 ^ 51"
    unfolding Math_PI_def below_one_def
    by (subst fl_eval[of 1]) (simp_all add: round_even_def Let_def)
qed


section \<open>The particle cloud\<close>

lemma random_eq: "random src lo hi k = (fl (fl (random_values src k * fl (hi - lo)) + lo), Suc k)"
  by (simp add: random_def Math_random_def)

lemma random_range:
  assumes u: "0 \<le> random_values src k" "random_values src k \<le> below_one"
    and c: "0 \<le> c" "fl (hi - lo) = c" "fl lo = lo"
    and top: "fl (fl (below_one * c) + lo) = t"
  shows "lo \<le> fst (random src lo hi k)" and "fst (random src lo hi k) \<le> t"
proof -
  have eq: "fst (random src lo hi k) = fl (fl (random_values src k * c) + lo)"
    by (simp add: random_eq c)
  have "0 \<le> random_values src k * c" using u(1) c(1) by simp
  then have "fl 0 \<le> fl (random_values src k * c)" by (rule fl_mono)
  then have "lo \<le> fl (random_values src k * c) + lo" by simp
  then have "fl lo \<le> fl (fl (random_values src k * c) + lo)" by (rule fl_mono)
  then show "lo \<le> fst (random src lo hi k)" unfolding eq c(3) .
  have "random_values src k * c \<le> below_one * c" using u(2) c(1) by (rule mult_right_mono)
  then have "fl (random_values src k * c) \<le> fl (below_one * c)" by (rule fl_mono)
  then have "fl (random_values src k * c) + lo \<le> fl (below_one * c) + lo" by simp
  then have "fl (fl (random_values src k * c) + lo) \<le> fl (fl (below_one * c) + lo)" by (rule fl_mono)
  then show "fst (random src lo hi k) \<le> t" unfolding eq top .
qed

lemma azimuth_range:
  assumes "0 \<le> random_values src k" "random_values src k \<le> below_one"
  shows "0 \<le> fst (random src 0 (fl (Math_PI * 2)) k)"
    and "fst (random src 0 (fl (Math_PI * 2)) k) < 2 * Math_PI"
    and "fst (random src 0 (fl (Math_PI * 2)) k) < 2 * pi"
proof -
  have c0: "0 \<le> Math_PI * 2" by (simp add: Math_PI_def)
  have c: "fl (fl (Math_PI * 2) - 0) = Math_PI * 2" by (simp add: two_pi)
  have top: "fl (fl (below_one * (Math_PI * 2)) + 0) = Math_PI * 2 - 1 / 2 ^ 50"
    unfolding top_values(1) by (rule top_values(2))
  note r = random_range[where src = src and k = k, OF assms c0 c fl_zero top]
  show "0 \<le> fst (random src 0 (fl (Math_PI * 2)) k)" by (rule r(1))
  show lt: "fst (random src 0 (fl (Math_PI * 2)) k) < 2 * Math_PI" using r(2) by simp
  show "fst (random src 0 (fl (Math_PI * 2)) k) < 2 * pi" using lt Math_PI_less_pi by simp
qed

lemma radius_range:
  assumes "0 \<le> random_values src k" "random_values src k \<le> below_one"
  shows "120 \<le> fst (random src 120 140 k)" and "fst (random src 120 140 k) \<le> 140"
proof -
  have c0: "(0::real) \<le> 20" by simp
  have c: "fl (140 - 120) = (20::real)" using fl_idem_aux(5) by simp
  have top: "fl (fl (below_one * 20) + 120) = 140"
    unfolding top_values(3) by (rule top_values(4))
  note r = random_range[where src = src and k = k, OF assms c0 c fl_idem_aux(1) top]
  show "120 \<le> fst (random src 120 140 k)" by (rule r(1))
  show "fst (random src 120 140 k) \<le> 140" by (rule r(2))
qed

lemma height_range:
  assumes "0 \<le> random_values src k" "random_values src k \<le> below_one"
  shows "- 60 \<le> fst (random src (- 60) 100 k)" and "fst (random src (- 60) 100 k) \<le> 100"
proof -
  have c0: "(0::real) \<le> 160" by simp
  have c: "fl (100 - (- 60)) = (160::real)" using fl_idem_aux(4) by simp
  have top: "fl (fl (below_one * 160) + (- 60)) = 100 - 1 / 2 ^ 45"
    unfolding top_values(5) by (rule top_values(6))
  note r = random_range[where src = src and k = k, OF assms c0 c fl_idem_aux(3) top]
  show "- 60 \<le> fst (random src (- 60) 100 k)" by (rule r(1))
  have "fst (random src (- 60) 100 k) \<le> 100 - 1 / 2 ^ 45" by (rule r(2))
  then show "fst (random src (- 60) 100 k) \<le> 100" by simp
qed

lemma angle_range:
  assumes "0 \<le> u" "u \<le> below_one"
  shows "0 \<le> fl (u * Math_PI)" and "fl (u * Math_PI) < Math_PI" and "fl (u * Math_PI) < pi"
proof -
  have p: "0 \<le> Math_PI" by (simp add: Math_PI_def)
  have "0 \<le> u * Math_PI" using assms(1) p by simp
  then have "fl 0 \<le> fl (u * Math_PI)" by (rule fl_mono)
  then show "0 \<le> fl (u * Math_PI)" by simp
  have "u * Math_PI \<le> below_one * Math_PI" using assms(2) p by (rule mult_right_mono)
  then have "fl (u * Math_PI) \<le> fl (below_one * Math_PI)" by (rule fl_mono)
  then have "fl (u * Math_PI) \<le> Math_PI - 1 / 2 ^ 51" unfolding top_values(7) .
  then show lt: "fl (u * Math_PI) < Math_PI" by simp
  show "fl (u * Math_PI) < pi" using lt Math_PI_less_pi by simp
qed

lemma particle_eq:
  "particle src k =
    (\<lparr>position = vset (fl (fst (random src 120 140 (k + 1)) * Math_cos src (fst (random src 0 (fl (Math_PI * 2)) k))))
                     (fst (random src (- 60) 100 (k + 2)))
                     (fl (fst (random src 120 140 (k + 1)) * Math_sin src (fst (random src 0 (fl (Math_PI * 2)) k)))),
      rotation = vset (fl (random_values src (k + 3) * Math_PI))
                     (fl (random_values src (k + 4) * Math_PI))
                     (fl (random_values src (k + 5) * Math_PI)),
      handle = 1\<rparr>, k + 6)"
  by (simp add: particle_def random_eq Math_random_def new_Mesh_def eval_nat_numeral)

lemma snd_particle: "snd (particle src k) = k + 6"
  by (simp add: particle_eq)

lemma cloud_loop_stop: "\<not> less_than i n \<Longrightarrow> cloud_loop src n i st = Some st"
  by (subst cloud_loop.simps) simp

lemma cloud_loop_step:
  "less_than i n \<Longrightarrow> cloud_loop src n i (g, k) =
     cloud_loop src n (fl (i + 1)) (add g (fst (particle src k)), k + 6)"
  by (subst cloud_loop.simps) (simp add: case_prod_beta snd_particle)

lemma cloud_loop_unroll:
  "j + m \<le> 2 ^ 53 \<Longrightarrow> (\<forall>i. j \<le> i \<and> i < j + m \<longrightarrow> less_than (real i) n) \<Longrightarrow>
   cloud_loop src n (real j) (g, k) = cloud_loop src n (real (j + m)) (grown src k m g, k + 6 * m)"
proof (induction m arbitrary: j g k)
  case 0
  then show ?case by (simp add: grown_def)
next
  case (Suc m)
  have lt: "less_than (real j) n" using Suc.prems(2) by simp
  have "Suc j \<le> 2 ^ 53" using Suc.prems(1) by simp
  from fl_nat[OF this] have incr: "fl (real j + 1) = real (Suc j)" by (simp add: add.commute)
  have b: "Suc j + m \<le> 2 ^ 53" using Suc.prems(1) by simp
  have a: "\<forall>i. Suc j \<le> i \<and> i < Suc j + m \<longrightarrow> less_than (real i) n" using Suc.prems(2) by simp
  have shift: "map (\<lambda>j. fst (particle src (k + 6 * j))) [0..<Suc m] =
      fst (particle src k) # map (\<lambda>j. fst (particle src (k + 6 + 6 * j))) [0..<m]"
    by (simp add: upt_conv_Cons map_Suc_upt[symmetric] add.assoc del: upt_Suc)
  have g: "grown src (k + 6) m (add g (fst (particle src k))) = grown src k (Suc m) g"
    unfolding grown_def shift by (simp add: add_def)
  show ?case
    unfolding cloud_loop_step[OF lt] incr Suc.IH[OF b a] g by (simp add: add.assoc)
qed

lemma cloud_loop_diverges:
  assumes "cloud_loop src n i st = Some y"
  shows "\<not> stuck n i"
proof (rule cloud_loop.raw_induct[where P = "\<lambda>src n i st y. \<not> stuck n i", OF _ assms])
  fix f :: "math \<Rightarrow> number \<Rightarrow> real \<Rightarrow> group \<times> nat \<Rightarrow> (group \<times> nat) option"
    and src n i st y
  assume IH: "\<And>src n i st y. f src n i st = Some y \<Longrightarrow> \<not> stuck n i"
    and eq: "(if less_than i n
       then (case st of (ps, k) \<Rightarrow>
               (case particle src k of (mesh, k') \<Rightarrow> f src n (fl (i + 1)) (add ps mesh, k')))
       else Some st) = Some y"
  show "\<not> stuck n i"
  proof
    assume s: "stuck n i"
    then have lt: "less_than i n" by (simp add: stuck_def)
    have "fl ((2::real) ^ 53 + 1) = 2 ^ 53"
      by (subst fl_eval[of 53]) (simp_all add: round_even_def Let_def)
    with s have s': "stuck n (fl (i + 1))" by (auto simp: stuck_def)
    obtain ps k where st: "st = (ps, k)" by (cases st)
    obtain mesh k' where p: "particle src k = (mesh, k')" by (cases "particle src k")
    from eq lt st p have "f src n (fl (i + 1)) (add ps mesh, k') = Some y"
      by simp
    from IH[OF this] s' show False by simp
  qed
qed

lemma stuck_None: "stuck n i \<Longrightarrow> cloud_loop src n i st = None"
  using cloud_loop_diverges[of src n i st] by (cases "cloud_loop src n i st") auto

lemma createParticleCloud_finite:
  assumes "x \<le> 2 ^ 53"
  shows "createParticleCloud src (Finite x) k =
    Some (grown src k (nat \<lceil>x\<rceil>) new_Group, k + 6 * nat \<lceil>x\<rceil>)"
proof -
  let ?m = "nat \<lceil>x\<rceil>"
  have "\<lceil>x\<rceil> \<le> 2 ^ 53" using assms by (simp add: ceiling_le_iff)
  then have m: "0 + ?m \<le> 2 ^ 53" by (simp add: nat_le_iff)
  have below: "\<forall>i. 0 \<le> i \<and> i < 0 + ?m \<longrightarrow> less_than (real i) (Finite x)"
  proof (intro allI impI)
    fix i assume "0 \<le> i \<and> i < 0 + ?m"
    then have "int i < \<lceil>x\<rceil>" by linarith
    then have "real i < x" by linarith
    then show "less_than (real i) (Finite x)" by simp
  qed
  have "x \<le> real ?m" by linarith
  then have stop: "\<not> less_than (real (0 + ?m)) (Finite x)" by simp
  show ?thesis
    unfolding createParticleCloud_def
    using cloud_loop_unroll[OF m below, of src new_Group k] cloud_loop_stop[OF stop, of src]
    by simp
qed

lemma createParticleCloud_beyond:
  assumes "2 ^ 53 < x"
  shows "createParticleCloud src (Finite x) k = None"
proof -
  have m: "0 + 2 ^ 53 \<le> (2::nat) ^ 53" by simp
  have below: "\<forall>i. 0 \<le> i \<and> i < 0 + 2 ^ 53 \<longrightarrow> less_than (real i) (Finite x)"
  proof (intro allI impI)
    fix i :: nat assume "0 \<le> i \<and> i < 0 + 2 ^ 53"
    then have "real i < 2 ^ 53" by (metis add_0 of_nat_less_iff of_nat_numeral of_nat_power)
    with assms show "less_than (real i) (Finite x)" by simp
  qed
  have "stuck (Finite x) (real ((0::nat) + 2 ^ 53))" using assms by (simp add: stuck_def)
  from stuck_None[OF this] show ?thesis
    unfolding createParticleCloud_def
    using cloud_loop_unroll[OF m below, of src new_Group k] by simp
qed

lemma createParticleCloud_Infinity: "createParticleCloud src Infinity k = None"
  unfolding createParticleCloud_def by (rule stuck_None) (simp add: stuck_def)

lemma createParticleCloud_empty:
  "n = NaN \<or> n = NegInfinity \<or> (\<exists>x. n = Finite x \<and> x \<le> 0) \<Longrightarrow>
   createParticleCloud src n k = Some (new_Group, k)"
  unfolding createParticleCloud_def by (rule cloud_loop_stop) auto

lemma grown_length: "length (children (grown src k m new_Group)) = m"
  by (simp add: grown_def new_Group_def)

lemma grown_nth: "j < m \<Longrightarrow> children (grown src k m new_Group) ! j = fst (particle src (k + 6 * j))"
  by (simp add: grown_def new_Group_def)

lemma createParticleCloud_2000:
  "createParticleCloud src (Finite 2000) k = Some (grown src k 2000 new_Group, k + 12000)"
  using createParticleCloud_finite[of 2000 src k] by simp


lemma normal_half: "normal (1 / 2)"
  by (simp add: normal_def)






section \<open>The render loop\<close>

lemma spin_eq:
  "length cs - i = m \<Longrightarrow> spin delta i (length cs) cs = take i cs @ map (turn delta) (drop i cs)"
proof (induction m arbitrary: i cs)
  case 0
  then show ?case by (simp add: spin.simps)
next
  case (Suc m)
  then have lt: "i < length cs" by simp
  let ?cs = "cs[i := turn delta (cs ! i)]"
  have "length ?cs - Suc i = m" using Suc.prems by simp
  from Suc.IH[OF this] have ih: "spin delta (Suc i) (length cs) ?cs =
      take (Suc i) ?cs @ map (turn delta) (drop (Suc i) ?cs)"
    by simp
  have "spin delta i (length cs) cs = spin delta (Suc i) (length cs) ?cs"
    using lt by (subst spin.simps) (simp add: turn_def)
  also have "\<dots> = take i cs @ turn delta (cs ! i) # map (turn delta) (drop (Suc i) cs)"
    unfolding ih using lt by (simp add: take_Suc_conv_app_nth)
  also have "\<dots> = take i cs @ map (turn delta) (drop i cs)"
    using lt by (simp add: Cons_nth_drop_Suc[symmetric])
  finally show ?case .
qed

lemma spin_all: "spin delta 0 (length cs) cs = map (turn delta) cs"
  using spin_eq[of cs 0 "length cs" delta] by simp

lemma render_eq:
  assumes "clock w = Some reads" "objects w = Some objs" "particles w = Some ps"
  shows "fst (render fr now w) =
     w\<lparr>frames_requested := Suc (frames_requested w),
       clock := Some (Suc reads),
       objects := Some (objs\<lparr>children := map (turn (clock_delta fr)) (children objs)\<rparr>),
       particles := Some (ps\<lparr>rotation := (rotation ps)
         \<lparr>yc := fl (yc (rotation ps) + fl (clock_delta fr * fl 0.01))\<rparr>\<rparr>),
       composer := (case composer_fault fr of Some e \<Rightarrow> composer w
                    | None \<Rightarrow> map_option (\<lambda>c. c\<lparr>rendered := rendered c @ [clock_delta fr]\<rparr>) (composer w)),
       drawn := (if composer w \<noteq> None \<and> composer_fault fr = None then Suc (drawn w) else drawn w)\<rparr>"
  using assms by (simp add: render_def spin_all Let_def split: option.splits)

lemma render_result:
  assumes "clock w = Some reads" "objects w = Some objs" "particles w = Some ps"
    "composer w = Some cmp"
  shows "snd (render fr now w) = composer_fault fr"
  using assms by (simp add: render_def spin_all Let_def split: option.splits)

lemma fl_literals:
  "fl (1 / 10) = 3602879701896397 / 2 ^ 55"
  "fl (4 / 10) = 3602879701896397 / 2 ^ 53"
  "fl (1 / 100) = 5764607523034235 / 2 ^ 59"
proof -
  show "fl (1 / 10) = 3602879701896397 / 2 ^ 55"
    by (subst fl_eval[of "- 4"]) (simp_all add: round_even_def Let_def)
  show "fl (4 / 10) = 3602879701896397 / 2 ^ 53"
    by (subst fl_eval[of "- 2"]) (simp_all add: round_even_def Let_def)
  show "fl (1 / 100) = 5764607523034235 / 2 ^ 59"
    by (subst fl_eval[of "- 7"]) (simp_all add: round_even_def Let_def)
qed

text \<open>
  C6, as the code has it. Take a frame in which the clock reports the delta \<open>d\<close>, a double,
  and in which the products and sums below stay in the range of full precision. One call
  of \<open>render\<close> on an initialised scene sets the rotation about the vertical axis of every
  member of the ring to the double nearest to its old value plus \<open>0.5 * d\<close>, which is within
  one rounding of that sum (a relative error of at most \<open>2 powi (-53)\<close>) and need not be
  equal to it; it sets that of the particle group to the old value plus the product of \<open>d\<close>
  and the double nearest to 0.01, the product and the sum each rounded. It changes nothing
  else of the scene: the members keep their position, their other two angles and their
  number, the groups keep everything else, and the scene, the camera, the controls and
  the renderer are the same. Apart from the scene, the call requests the next frame, reads
  the clock and hands the frame to the composer.
\<close>

theorem render_rotations:
  assumes "clock w = Some reads" and "objects w = Some objs" and "particles w = Some ps"
    and "fl (clock_delta fr) = clock_delta fr"
    and "normal (clock_delta fr * 0.5)"
    and "\<forall>ob \<in> set (children objs). normal (yc (rotation ob) + 0.5 * clock_delta fr)"
    and "normal (clock_delta fr * fl 0.01)"
    and "normal (yc (rotation ps) + fl (clock_delta fr * fl 0.01))"
  shows "\<exists>objs' ps'.
     objects (fst (render fr now w)) = Some objs' \<and>
     particles (fst (render fr now w)) = Some ps' \<and>
     length (children objs') = length (children objs) \<and>
     (\<forall>i < length (children objs).
        yc (rotation (children objs' ! i)) =
          fl (yc (rotation (children objs ! i)) + 0.5 * clock_delta fr) \<and>
        \<bar>yc (rotation (children objs' ! i)) - (yc (rotation (children objs ! i)) + 0.5 * clock_delta fr)\<bar>
          \<le> \<bar>yc (rotation (children objs ! i)) + 0.5 * clock_delta fr\<bar> / 2 ^ 53 \<and>
        children objs' ! i = (children objs ! i)
          \<lparr>rotation := (rotation (children objs ! i))\<lparr>yc := yc (rotation (children objs' ! i))\<rparr>\<rparr>) \<and>
     objs' = objs\<lparr>children := children objs'\<rparr> \<and>
     yc (rotation ps') = fl (yc (rotation ps) + fl (clock_delta fr * fl 0.01)) \<and>
     ps' = ps\<lparr>rotation := (rotation ps)\<lparr>yc := yc (rotation ps')\<rparr>\<rparr> \<and>
     fst (render fr now w) =
       w\<lparr>objects := Some objs', particles := Some ps',
         frames_requested := frames_requested (fst (render fr now w)),
         clock := clock (fst (render fr now w)),
         composer := composer (fst (render fr now w)),
         drawn := drawn (fst (render fr now w))\<rparr>"
proof -
  have half: "fl (clock_delta fr / 2) = clock_delta fr / 2"
    using fl_half[of "clock_delta fr"] assms(4) by simp
  have err: "\<bar>fl (y + 0.5 * clock_delta fr) - (y + 0.5 * clock_delta fr)\<bar>
      \<le> \<bar>y + 0.5 * clock_delta fr\<bar> / 2 ^ 53" for y
    by (rule fl_error)
  show ?thesis
    unfolding render_eq[OF assms(1-3)] using err by (simp add: turn_def half)
qed

lemma sample_frame_delta:
  "fl (clock_delta sample_frame) = clock_delta sample_frame"
  "normal (clock_delta sample_frame * 0.5)"
  "normal (clock_delta sample_frame * fl 0.01)"
  "fl (clock_delta sample_frame * fl 0.01) = 5764607523034235 / 2 ^ 65"
proof -
  show "fl (clock_delta sample_frame) = clock_delta sample_frame"
    using fl_grid[of 1 "- 6"] by (simp add: sample_frame_def)
  show "normal (clock_delta sample_frame * 0.5)"
    by (simp add: sample_frame_def normal_def)
  have c: "fl 0.01 = 5764607523034235 / 2 ^ 59" using fl_literals(3) by simp
  show "normal (clock_delta sample_frame * fl 0.01)"
    unfolding c by (simp add: sample_frame_def normal_def)
  show "fl (clock_delta sample_frame * fl 0.01) = 5764607523034235 / 2 ^ 65"
    unfolding c using fl_grid[of 5764607523034235 "- 65"] by (simp add: sample_frame_def)
qed

theorem render_rotations_witness:
  "clock sample_world = Some 0 \<and>
   (\<exists>objs ps. objects sample_world = Some objs \<and> particles sample_world = Some ps) \<and>
   fl (clock_delta sample_frame) = clock_delta sample_frame \<and>
   normal (clock_delta sample_frame * 0.5) \<and>
   normal (clock_delta sample_frame * fl 0.01) \<and>
   snd (render sample_frame 0 sample_world) = None \<and>
   (\<exists>objs'. objects (fst (render sample_frame 0 sample_world)) = Some objs' \<and>
      yc (rotation (children objs' ! 1)) = 1 / 128)"
proof -
  let ?objs = "add (add new_Group (sample_object 0)) (sample_object 1)"
  have c: "clock sample_world = Some 0"
    by (simp add: sample_world_def)
  have ob: "objects sample_world = Some ?objs"
    by (simp add: sample_world_def)
  have ps: "particles sample_world = Some new_Group"
    by (simp add: sample_world_def)
  have cm: "composer sample_world = Some \<lparr>composer_size = (800, 600), passes = [], rendered = []\<rparr>"
    by (simp add: sample_world_def)
  have n1: "\<forall>ob \<in> set (children ?objs). normal (yc (rotation ob) + 0.5 * clock_delta sample_frame)"
    by (simp add: add_def new_Group_def sample_object_def vset_def sample_frame_def normal_def)
  have n2: "normal (yc (rotation new_Group) + fl (clock_delta sample_frame * fl 0.01))"
    unfolding sample_frame_delta(4) by (simp add: new_Group_def vset_def normal_def)
  from render_rotations[OF c ob ps sample_frame_delta(1,2) n1 sample_frame_delta(3) n2, of 0]
  obtain objs' where
    o': "objects (fst (render sample_frame 0 sample_world)) = Some objs'" and
    r': "\<forall>i < length (children ?objs).
        yc (rotation (children objs' ! i)) =
          fl (yc (rotation (children ?objs ! i)) + 0.5 * clock_delta sample_frame)"
    by blast
  have "fl (1 / 128) = 1 / 128" using fl_grid[of 1 "- 7"] by simp
  then have "yc (rotation (children objs' ! 1)) = 1 / 128"
    using r'[rule_format, of 1]
    by (simp add: add_def new_Group_def sample_object_def sample_frame_def vset_def)
  moreover have "snd (render sample_frame 0 sample_world) = None"
    using render_result[OF c ob ps cm, of sample_frame 0] by (simp add: sample_frame_def)
  ultimately show ?thesis
    using c ob ps o' sample_frame_delta(1,2,3) by blast
qed

text \<open>
  The claim C6 as it is written says that the rotation increases by exactly \<open>0.5 * d\<close>. A
  ring member turned by the double nearest to 0.1, in a frame whose delta is the double
  nearest to 0.4, is turned to \<open>5404319552844596 / 2 ^ 54\<close>, the double after the one
  nearest to 0.3: the sum lies half way between two doubles and is rounded to the even
  one. The increase differs from \<open>0.5 * d\<close>.
\<close>

theorem render_rotations_counterexample:
  "yc (rotation (children (the (objects tenth_world)) ! 0)) = 3602879701896397 / 2 ^ 55 \<and>
   clock_delta tenth_frame = 3602879701896397 / 2 ^ 53 \<and>
   yc (rotation (children (the (objects (fst (render tenth_frame 0 tenth_world)))) ! 0)) =
     5404319552844596 / 2 ^ 54 \<and>
   yc (rotation (children (the (objects (fst (render tenth_frame 0 tenth_world)))) ! 0)) -
     yc (rotation (children (the (objects tenth_world)) ! 0)) \<noteq> 0.5 * clock_delta tenth_frame"
proof -
  let ?ob = "(sample_object 0)\<lparr>rotation := vset 0 (fl 0.1) 0\<rparr>"
  have tenth: "fl 0.1 = 3602879701896397 / 2 ^ 55" using fl_literals(1) by simp
  have d: "clock_delta tenth_frame = 3602879701896397 / 2 ^ 53"
    using fl_literals(2) by (simp add: tenth_frame_def)
  have c: "clock tenth_world = Some 0" by (simp add: tenth_world_def sample_world_def)
  have ob: "objects tenth_world = Some (add new_Group ?ob)" by (simp add: tenth_world_def)
  have ps: "particles tenth_world = Some new_Group" by (simp add: tenth_world_def sample_world_def)
  have prod: "fl (3602879701896397 / 2 ^ 53 * 0.5) = 3602879701896397 / 2 ^ 54"
    by (subst fl_eval[of "- 3"]) (simp_all add: round_even_def Let_def)
  have sum: "fl (3602879701896397 / 2 ^ 55 + 3602879701896397 / 2 ^ 54) = 5404319552844596 / 2 ^ 54"
    by (subst fl_eval[of "- 2"]) (simp_all add: round_even_def Let_def)
  have before: "yc (rotation (children (the (objects tenth_world)) ! 0)) = 3602879701896397 / 2 ^ 55"
    unfolding ob by (simp add: add_def new_Group_def vset_def tenth)
  have "yc (rotation (children (the (objects (fst (render tenth_frame 0 tenth_world)))) ! 0)) =
      fl (3602879701896397 / 2 ^ 55 + fl (3602879701896397 / 2 ^ 53 * 0.5))"
    unfolding render_eq[OF c ob ps] d
    by (simp add: add_def new_Group_def vset_def turn_def tenth)
  then have after: "yc (rotation (children (the (objects (fst (render tenth_frame 0 tenth_world)))) ! 0)) =
      5404319552844596 / 2 ^ 54"
    unfolding prod sum .
  show ?thesis
    unfolding before after d by simp
qed

section \<open>The ring\<close>

lemma key_simps:
  "key 0 = ''object0''" "key (Suc 0) = ''object1''" "key 1 = ''object1''"
  "key 2 = ''object2''" "key 3 = ''object3''"
  by code_simp+

lemma ring_loop_eq:
  assumes "assets (key 0) = Some a0" "assets (key 1) = Some a1" "assets (key 2) = Some a2"
    "assets (key 3) = Some a3"
  shows "ring_loop assets 0 0 new_Group =
    (new_Group\<lparr>children := [place 0 a0, place 1 a1, place 2 a2, place 3 a3]\<rparr>, None)"
proof -
  have k: "assets (key (Suc 0)) = Some a1" "assets (key (Suc (Suc 0))) = Some a2"
     "assets (key (Suc (Suc (Suc 0)))) = Some a3"
    using assms by (simp_all add: eval_nat_numeral)
  show ?thesis
    apply (subst ring_loop.simps, simp add: assms(1) Let_def)
    apply (subst ring_loop.simps, simp add: k Let_def)
    apply (subst ring_loop.simps, simp add: k Let_def)
    apply (subst ring_loop.simps, simp add: k Let_def)
    apply (subst ring_loop.simps, simp add: add_def new_Group_def place_def)
    done
qed

lemma initialize_eq:
  assumes vp: "viewport_present e"
    and keys: "assets (key 0) = Some a0" "assets (key 1) = Some a1" "assets (key 2) = Some a2"
      "assets (key 3) = Some a3"
  shows "snd (initialize e assets w) = None"
    and "objects (fst (initialize e assets w)) =
      Some (new_Group\<lparr>children := [place 0 a0, place 1 a1, place 2 a2, place 3 a3]\<rparr>)"
    and "particles (fst (initialize e assets w)) =
      Some (grown (math_object e) (entropy_drawn e) 2000 new_Group)"
    and "clock (fst (initialize e assets w)) = Some 0"
    and "composer (fst (initialize e assets w)) =
      Some \<lparr>composer_size = (innerWidth e, innerHeight e),
            passes = [RenderPass, FilmPass film_pass_options True], rendered = []\<rparr>"
proof -
  note cloud = createParticleCloud_2000
  note ring = ring_loop_eq[OF keys]
  show "snd (initialize e assets w) = None"
    using vp by (simp add: initialize_def Let_def cloud ring)
  show "objects (fst (initialize e assets w)) =
      Some (new_Group\<lparr>children := [place 0 a0, place 1 a1, place 2 a2, place 3 a3]\<rparr>)"
    using vp by (simp add: initialize_def Let_def cloud ring)
  show "particles (fst (initialize e assets w)) =
      Some (grown (math_object e) (entropy_drawn e) 2000 new_Group)"
    using vp by (simp add: initialize_def Let_def cloud ring)
  show "clock (fst (initialize e assets w)) = Some 0"
    using vp by (simp add: initialize_def Let_def cloud ring)
  show "composer (fst (initialize e assets w)) =
      Some \<lparr>composer_size = (innerWidth e, innerHeight e),
            passes = [RenderPass, FilmPass film_pass_options True], rendered = []\<rparr>"
    using vp by (simp add: initialize_def Let_def cloud ring)
qed

lemma below_four: "i < 4 \<Longrightarrow> i = 0 \<or> i = 1 \<or> i = 2 \<or> i = (3::nat)"
  by arith

lemma sample_assets_keys: "i < 4 \<Longrightarrow> sample_assets (key i) = Some (sample_object i)"
  by (auto dest!: below_four simp: sample_assets_def key_simps)

lemma sample_env_viewport: "viewport_present sample_env"
  by (simp add: sample_env_def)

lemma initialize_ring:
  assumes vp: "viewport_present e" and keys: "\<forall>i < 4. assets (key i) = Some (a i)"
  shows "snd (initialize e assets w) = None"
    and "objects (fst (initialize e assets w)) =
      Some (new_Group\<lparr>children := [place 0 (a 0), place 1 (a 1), place 2 (a 2), place 3 (a 3)]\<rparr>)"
proof -
  have k: "assets (key 0) = Some (a 0)" "assets (key 1) = Some (a 1)"
    "assets (key 2) = Some (a 2)" "assets (key 3) = Some (a 3)"
    using keys by simp_all
  show "snd (initialize e assets w) = None"
    by (rule initialize_eq(1)[OF vp k])
  show "objects (fst (initialize e assets w)) =
      Some (new_Group\<lparr>children := [place 0 (a 0), place 1 (a 1), place 2 (a 2), place 3 (a 3)]\<rparr>)"
    by (rule initialize_eq(2)[OF vp k])
qed

lemma ring_member:
  "i < 4 \<Longrightarrow> [place 0 (a 0), place 1 (a 1), place 2 (a 2), place 3 (a 3)] ! i = place i (a i)"
  by (auto dest!: below_four)




text \<open>
  C9. \<open>initialize\<close> assigns only the \<open>x\<close> and \<open>z\<close> coordinates of the position of each ring
  asset: the \<open>y\<close> coordinate of every member is the one the asset was loaded with, and so
  are its rotation and the rest of the object.
\<close>

theorem initialize_keeps_height:
  assumes "viewport_present e" and "\<forall>i < 4. assets (key i) = Some (a i)"
  shows "\<exists>g. objects (fst (initialize e assets w)) = Some g \<and>
      (\<forall>i < 4.
         yc (position (children g ! i)) = yc (position (a i)) \<and>
         children g ! i =
           (a i)\<lparr>position := (position (a i))\<lparr>xc := xc (position (children g ! i)),
                                                zc := zc (position (children g ! i))\<rparr>\<rparr>)"
proof -
  let ?g = "new_Group\<lparr>children := [place 0 (a 0), place 1 (a 1), place 2 (a 2), place 3 (a 3)]\<rparr>"
  have "children ?g ! i = place i (a i)" if "i < 4" for i
    using ring_member[OF that, of a] by simp
  then have "\<forall>i < 4.
         yc (position (children ?g ! i)) = yc (position (a i)) \<and>
         children ?g ! i =
           (a i)\<lparr>position := (position (a i))\<lparr>xc := xc (position (children ?g ! i)),
                                                zc := zc (position (children ?g ! i))\<rparr>\<rparr>"
    by (simp add: place_def)
  then show ?thesis
    using initialize_ring(2)[OF assms, of w] by blast
qed

theorem initialize_keeps_height_witness:
  "viewport_present sample_env \<and>
   sample_assets (key 0) = Some (sample_object 0) \<and> sample_assets (key 1) = Some (sample_object 1) \<and>
   sample_assets (key 2) = Some (sample_object 2) \<and> sample_assets (key 3) = Some (sample_object 3) \<and>
   (\<exists>g. objects (fst (initialize sample_env sample_assets initial_world)) = Some g \<and>
      yc (position (children g ! 3)) = 3)"
proof -
  have keys: "\<forall>i < 4. sample_assets (key i) = Some (sample_object i)"
    by (simp add: sample_assets_keys)
  from initialize_keeps_height[OF sample_env_viewport keys, of initial_world]
  obtain g where g: "objects (fst (initialize sample_env sample_assets initial_world)) = Some g"
    and at: "\<forall>i < 4. yc (position (children g ! i)) = yc (position (sample_object i))"
    by blast
  have "yc (position (children g ! 3)) = 3"
    using at[rule_format, of 3] by (simp add: sample_object_def vset_def)
  with g sample_env_viewport show ?thesis by (simp add: sample_assets_keys)
qed

section \<open>The resize handler\<close>

lemma resize_first:
  "id s = 0 \<Longrightarrow> timeouts s = [] \<Longrightarrow> handled s = [] \<Longrightarrow>
   pending_since t0 (resize (t0, w, h) s) \<and>
   last_handle (resize (t0, w, h) s) = Suc (last_handle s) \<and>
   window_innerWidth (resize (t0, w, h) s) = w \<and> window_innerHeight (resize (t0, w, h) s) = h"
  by (simp add: pending_since_def resize_def advance_def onResize_def setTimeout_def Let_def)

text \<open>
  While the timeout is pending, a resize event changes nothing but the size of the window:
  no timeout is set and the pending one keeps its time.
\<close>

lemma resize_ignored:
  "pending_since t0 s \<Longrightarrow> t < t0 + 66 \<Longrightarrow>
   resize (t, w, h) s = s\<lparr>window_innerWidth := w, window_innerHeight := h\<rparr>"
  by (simp add: pending_since_def resize_def advance_def onResize_def Let_def)

lemma resizes_ignored:
  "pending_since t0 s \<Longrightarrow> \<forall>r \<in> set rs. fst r < t0 + 66 \<Longrightarrow> rs \<noteq> [] \<Longrightarrow>
   resizes rs s = s\<lparr>window_innerWidth := fst (snd (last rs)), window_innerHeight := snd (snd (last rs))\<rparr>"
proof (induction rs arbitrary: s)
  case Nil
  then show ?case by simp
next
  case (Cons r rs)
  obtain t w h where r: "r = (t, w, h)" by (cases r) auto
  have lt: "t < t0 + 66" using Cons.prems(2) r by simp
  have step: "resize r s = s\<lparr>window_innerWidth := w, window_innerHeight := h\<rparr>"
    unfolding r using resize_ignored[OF Cons.prems(1) lt] .
  have pend: "pending_since t0 (s\<lparr>window_innerWidth := w, window_innerHeight := h\<rparr>)"
    using Cons.prems(1) by (simp add: pending_since_def)
  show ?case
  proof (cases "rs = []")
    case True
    then show ?thesis using step r by simp
  next
    case False
    have "\<forall>r \<in> set rs. fst r < t0 + 66" using Cons.prems(2) by simp
    from Cons.IH[OF pend this False] show ?thesis
      using step False by simp
  qed
qed

lemma fire_pending:
  "pending_since t0 s \<Longrightarrow>
    advance (latest s) s = s\<lparr>timeouts := [], composer_width := window_innerWidth s,
       composer_height := window_innerHeight s,
       camera_aspect := window_innerWidth s / window_innerHeight s,
       camera_updates := Suc (camera_updates s),
       handled := [(t0 + 66, window_innerWidth s, window_innerHeight s)], id := 0\<rparr>"
  by (simp add: pending_since_def advance_def latest_def handleResize_def Let_def)

text \<open>
  C2, as the code has it. A burst that starts at time \<open>t0\<close> on an idle handler and whose
  further events all come less than 66 ms after its first event causes exactly one call
  of \<open>handleResize\<close>. The call is made 66 ms after the first event of the burst, not after
  the last; it uses the size the window has at that time, which is the size of the last
  event. The further events are ignored: one timeout is set in all, none is pending at the
  end, and the handler is idle again.
\<close>

theorem onResize_burst:
  assumes "\<forall>r \<in> set rs. t0 \<le> fst r \<and> fst r < t0 + 66"
  shows "handled (burst ((t0, w0, h0) # rs) (idle w h)) =
           [(t0 + 66, snd (last ((t0, w0, h0) # rs)))] \<and>
         last_handle (burst ((t0, w0, h0) # rs) (idle w h)) = 1 \<and>
         id (burst ((t0, w0, h0) # rs) (idle w h)) = 0 \<and>
         timeouts (burst ((t0, w0, h0) # rs) (idle w h)) = []"
proof -
  let ?s1 = "resize (t0, w0, h0) (idle w h)"
  have first: "pending_since t0 ?s1" "window_innerWidth ?s1 = w0" "window_innerHeight ?s1 = h0"
    "last_handle ?s1 = 1"
    using resize_first[of "idle w h" t0 w0 h0] by (simp_all add: idle_def)
  show ?thesis
  proof (cases "rs = []")
    case True
    then show ?thesis
      using fire_pending[OF first(1)] first by (simp add: burst_def Let_def)
  next
    case False
    have lt: "\<forall>r \<in> set rs. fst r < t0 + 66" using assms by simp
    let ?s2 = "?s1\<lparr>window_innerWidth := fst (snd (last rs)), window_innerHeight := snd (snd (last rs))\<rparr>"
    have rs: "resizes rs ?s1 = ?s2"
      using resizes_ignored[OF first(1) lt False] .
    have pend: "pending_since t0 ?s2" using first(1) by (simp add: pending_since_def)
    show ?thesis
      using fire_pending[OF pend] False first(4) by (simp add: burst_def Let_def rs)
  qed
qed

theorem onResize_burst_witness:
  "(100::nat) \<le> 120 \<and> (120::nat) < 100 + 66 \<and> (100::nat) \<le> 150 \<and> (150::nat) < 100 + 66 \<and>
   handled (burst [(100, 800, 600), (120, 810, 600), (150, 820, 610)] (idle 640 480)) =
     [(166, 820, 610)]"
  using onResize_burst[of "[(120, 810, 600), (150, 820, 610)]" 100 800 600 640 480] by simp

text \<open>
  The claim C2 as it is written fails on a burst of three events 50 ms apart, each within
  66 ms of the one before: \<open>handleResize\<close> is called twice, first at 66 ms, before the last
  event and with the size of the second event, and again at 166 ms.
\<close>

theorem onResize_burst_counterexample:
  "handled (burst [(0, 800, 600), (50, 810, 600), (100, 820, 600)] (idle 640 480)) =
     [(66, 810, 600), (166, 820, 600)] \<and>
   length (handled (burst [(0, 800, 600), (50, 810, 600), (100, 820, 600)] (idle 640 480))) = 2"
  by (simp add: burst_def resize_def advance_def onResize_def setTimeout_def handleResize_def
      idle_def latest_def Let_def)

section \<open>Loading\<close>

lemma load_eq:
  "load a = \<lparr>assets_of = a, itemsLoaded = 0, itemsTotal = 4, promise = Pending, console_log = []\<rparr>"
  unfolding load_def
  apply (subst request_loop.simps, simp add: itemStart_def)
  apply (subst request_loop.simps, simp add: itemStart_def)
  apply (subst request_loop.simps, simp add: itemStart_def)
  apply (subst request_loop.simps, simp add: itemStart_def)
  apply (subst request_loop.simps, simp add: itemStart_def)
  done

lemmas settle_defs = itemEnd_def itemError_def onError_def onProgress_def onLoad_def
  resolve_def reject_def Let_def

lemma settle_all_snoc: "settle_all ord (evs @ [ev]) s = settle ord ev (settle_all ord evs s)"
  by (induction evs arbitrary: s) simp_all

lemma settle_total: "itemsTotal (settle ord ev s) = itemsTotal s"
  by (cases "(ord, ev, s)" rule: settle.cases) (simp_all add: settle_defs)

lemma settle_loaded: "itemsLoaded (settle ord ev s) = Suc (itemsLoaded s)"
  by (cases "(ord, ev, s)" rule: settle.cases) (simp_all add: settle_defs)

lemma settle_all_total: "itemsTotal (settle_all ord evs s) = itemsTotal s"
  by (induction evs arbitrary: s) (simp_all add: settle_total)

lemma settle_all_loaded: "itemsLoaded (settle_all ord evs s) = itemsLoaded s + length evs"
  by (induction evs arbitrary: s) (simp_all add: settle_loaded)

lemma settle_settled: "promise s \<noteq> Pending \<Longrightarrow> promise (settle ord ev s) = promise s"
  by (cases "(ord, ev, s)" rule: settle.cases) (simp_all add: settle_defs)

lemma settle_success_promise:
  "succeeds ev \<Longrightarrow> promise s = Pending \<Longrightarrow>
   promise (settle ord ev s) = (if Suc (itemsLoaded s) = itemsTotal s then Fulfilled else Pending)"
  by (cases "(ord, ev, s)" rule: settle.cases) (simp_all add: succeeds_def settle_defs)

lemma settle_keeps_key:
  "k \<in> dom (assets_of s) \<Longrightarrow> k \<in> dom (assets_of (settle ord ev s))"
  by (cases "(ord, ev, s)" rule: settle.cases) (auto simp: settle_defs)

lemma settle_sets_key:
  "assets_of (settle ord (i, Success obj) s) (key i) = Some obj"
  by (simp add: settle_defs)

lemma settle_all_keeps_key:
  "k \<in> dom (assets_of s) \<Longrightarrow> k \<in> dom (assets_of (settle_all ord evs s))"
  by (induction evs arbitrary: s) (simp_all add: settle_keeps_key)

lemma settle_all_has_key:
  "(i, Success obj) \<in> set evs \<Longrightarrow> key i \<in> dom (assets_of (settle_all ord evs s))"
proof (induction evs arbitrary: s)
  case Nil
  then show ?case by simp
next
  case (Cons ev evs)
  show ?case
  proof (cases "ev = (i, Success obj)")
    case True
    have "key i \<in> dom (assets_of (settle ord ev s))"
      unfolding True using settle_sets_key[of ord i obj s] by (rule domI)
    then show ?thesis by (simp add: settle_all_keeps_key)
  next
    case False
    with Cons.prems have "(i, Success obj) \<in> set evs" by simp
    from Cons.IH[OF this] show ?thesis by simp
  qed
qed

lemma all_success_promise:
  assumes "list_all succeeds evs" "promise s = Pending" "itemsLoaded s + length evs \<le> itemsTotal s"
  shows "promise (settle_all ord evs s) =
     (if evs \<noteq> [] \<and> itemsLoaded s + length evs = itemsTotal s then Fulfilled else Pending)"
  using assms
proof (induction evs rule: rev_induct)
  case Nil
  then show ?case by simp
next
  case (snoc ev evs)
  have ih: "promise (settle_all ord evs s) = Pending"
    using snoc by simp
  have "succeeds ev" using snoc.prems by simp
  from settle_success_promise[OF this ih, of ord] show ?case
    by (simp add: settle_all_snoc settle_all_loaded settle_all_total)
qed

lemma execution_length: "execution evs \<Longrightarrow> length evs \<le> 4"
proof -
  assume ex: "execution evs"
  then have "set (map fst evs) \<subseteq> {0..<4}" by (auto simp: execution_def list_all_iff)
  then have "card (set (map fst evs)) \<le> card {0..<4::nat}" by (intro card_mono) auto
  moreover have "card (set (map fst evs)) = length evs"
    using ex distinct_card[of "map fst evs"] by (simp add: execution_def)
  ultimately show ?thesis by simp
qed

lemma execution_complete:
  assumes ex: "execution evs" and len: "length evs = 4" and i: "i < 4"
  shows "i \<in> fst ` set evs"
proof -
  have sub: "set (map fst evs) \<subseteq> {0..<4}" using ex by (auto simp: execution_def list_all_iff)
  have "card (set (map fst evs)) = 4"
    using ex len distinct_card[of "map fst evs"] by (simp add: execution_def)
  then have "set (map fst evs) = {0..<4}"
    using sub by (intro card_subset_eq) auto
  then show ?thesis using i by auto
qed

lemma sample_loads_execution: "execution sample_loads \<and> list_all succeeds sample_loads"
  by (simp add: execution_def sample_loads_def succeeds_def)

text \<open>
  C4. In an execution in which every request that has completed so far has succeeded, in
  whatever order the requests complete, the promise of \<open>load\<close> is pending as long as fewer
  than four requests have completed and is fulfilled once all four have; whenever it is
  fulfilled, each of the keys \<open>object0\<close> to \<open>object3\<close> is present in the assets.
\<close>

theorem load_resolves_complete:
  assumes ex: "execution evs" and ok: "list_all succeeds evs"
  shows "(promise (settle_all ord evs (load a)) = Fulfilled \<longleftrightarrow> length evs = 4) \<and>
         (promise (settle_all ord evs (load a)) = Pending \<longleftrightarrow> length evs < 4) \<and>
         (promise (settle_all ord evs (load a)) = Fulfilled \<longrightarrow>
            (\<forall>i < 4. key i \<in> dom (assets_of (settle_all ord evs (load a)))))"
proof -
  have len: "length evs \<le> 4" using ex by (rule execution_length)
  have pr: "promise (settle_all ord evs (load a)) = (if length evs = 4 then Fulfilled else Pending)"
    using all_success_promise[OF ok, of "load a" ord] len by (auto simp: load_eq)
  have keys: "key i \<in> dom (assets_of (settle_all ord evs (load a)))" if "length evs = 4" "i < 4" for i
  proof -
    from execution_complete[OF ex that] obtain oc where mem: "(i, oc) \<in> set evs" by auto
    with ok have "succeeds (i, oc)" by (simp add: list_all_iff)
    then obtain obj where "oc = Success obj" by (cases oc) (simp_all add: succeeds_def)
    with mem show ?thesis by (simp add: settle_all_has_key)
  qed
  show ?thesis using pr keys len by auto
qed

theorem load_resolves_complete_witness:
  "execution sample_loads \<and> list_all succeeds sample_loads \<and>
   promise (settle_all ErrorThenEnd sample_loads (load Map.empty)) = Fulfilled \<and>
   key 0 \<in> dom (assets_of (settle_all ErrorThenEnd sample_loads (load Map.empty))) \<and>
   key 1 \<in> dom (assets_of (settle_all ErrorThenEnd sample_loads (load Map.empty))) \<and>
   key 2 \<in> dom (assets_of (settle_all ErrorThenEnd sample_loads (load Map.empty))) \<and>
   key 3 \<in> dom (assets_of (settle_all ErrorThenEnd sample_loads (load Map.empty)))"
proof -
  have len: "length sample_loads = 4" by (simp add: sample_loads_def)
  from load_resolves_complete[OF sample_loads_execution[THEN conjunct1]
      sample_loads_execution[THEN conjunct2], of ErrorThenEnd Map.empty]
  show ?thesis using len sample_loads_execution by simp
qed

section \<open>The startup chain\<close>

lemma chain_eq:
  "chain e fr p = p\<lparr>wd := fst (startup e fr (assets_of (ld p)) (wd p) (promise (ld p))),
      trace := trace p @ snd (startup e fr (assets_of (ld p)) (wd p) (promise (ld p)))\<rparr>"
  by (cases "promise (ld p)")
     (auto simp: chain_def startup_def then_promise_def catch_promise_def call_initialize_def
       call_render_def console_error_def log_action_def Let_def split: prod.splits option.splits)

lemma startup_rejected:
  "startup e fr a w (Rejected reason) = (w, [Settled (Rejected reason), Console_error reason])"
  by (simp add: startup_def)

text \<open>The chain does not touch the loading state, and events do not touch the rest.\<close>

lemma ld_deliver: "ld (deliver e fr ord evs p) = settle_all ord evs (ld p)"
  by (induction evs arbitrary: p) (simp_all add: Let_def chain_eq)

lemma ld_main: "ld (main e fr ord evs) = settle_all ord evs (load Map.empty)"
  by (simp add: main_def ld_deliver)

text \<open>Once the promise has settled, the chain does not run again.\<close>

lemma deliver_settled:
  "promise (ld p) \<noteq> Pending \<Longrightarrow>
     wd (deliver e fr ord evs p) = wd p \<and> trace (deliver e fr ord evs p) = trace p \<and>
     promise (ld (deliver e fr ord evs p)) = promise (ld p)"
proof (induction evs arbitrary: p)
  case Nil
  then show ?case by simp
next
  case (Cons ev evs)
  let ?p = "p\<lparr>ld := settle ord ev (ld p)\<rparr>"
  have pr: "promise (ld ?p) = promise (ld p)" using Cons.prems by (simp add: settle_settled)
  then have "promise (ld ?p) \<noteq> Pending" using Cons.prems by simp
  from Cons.IH[OF this] show ?case using Cons.prems pr by (simp add: Let_def)
qed

lemma settle_fulfils:
  "promise s = Pending \<Longrightarrow> promise (settle ord ev s) = Fulfilled \<Longrightarrow>
   Suc (itemsLoaded s) = itemsTotal s"
  by (cases "(ord, ev, s)" rule: settle.cases) (simp_all add: settle_defs split: if_splits)

text \<open>
  The chain runs once, when the promise settles, on the assets as they are then; when the
  promise is fulfilled these are the assets at the end, since the fourth completion is the
  last event.
\<close>

lemma deliver_pending:
  "promise (ld p) = Pending \<Longrightarrow> itemsLoaded (ld p) + length evs \<le> itemsTotal (ld p) \<Longrightarrow>
     (promise (ld (deliver e fr ord evs p)) = Pending \<and>
        wd (deliver e fr ord evs p) = wd p \<and> trace (deliver e fr ord evs p) = trace p) \<or>
     (promise (ld (deliver e fr ord evs p)) \<noteq> Pending \<and>
        wd (deliver e fr ord evs p) =
          fst (startup e fr (assets_of (ld (deliver e fr ord evs p))) (wd p)
                 (promise (ld (deliver e fr ord evs p)))) \<and>
        trace (deliver e fr ord evs p) =
          trace p @ snd (startup e fr (assets_of (ld (deliver e fr ord evs p))) (wd p)
                           (promise (ld (deliver e fr ord evs p)))))"
proof (induction evs arbitrary: p)
  case Nil
  then show ?case by simp
next
  case (Cons ev evs)
  let ?p = "p\<lparr>ld := settle ord ev (ld p)\<rparr>"
  have count: "itemsLoaded (ld ?p) + length evs \<le> itemsTotal (ld ?p)"
    using Cons.prems(2) by (simp add: settle_loaded settle_total)
  show ?case
  proof (cases "promise (ld ?p)")
    case Pending
    have "deliver e fr ord (ev # evs) p = deliver e fr ord evs ?p"
      using Pending by (simp add: Let_def)
    with Cons.IH[OF Pending count] show ?thesis by simp
  next
    case Fulfilled
    have "Suc (itemsLoaded (ld p)) = itemsTotal (ld p)"
      using settle_fulfils[OF Cons.prems(1), of ord ev] Fulfilled by simp
    with Cons.prems(2) have "length evs = 0" by (simp only: length_Cons)
    then have "evs = []" by simp
    then have "deliver e fr ord (ev # evs) p = chain e fr ?p"
      using Fulfilled Cons.prems(1) by (simp add: Let_def)
    then show ?thesis using Fulfilled by (simp add: chain_eq)
  next
    case (Rejected reason)
    let ?q = "chain e fr ?p"
    have d: "deliver e fr ord (ev # evs) p = deliver e fr ord evs ?q"
      using Rejected Cons.prems(1) by (simp add: Let_def)
    have q: "promise (ld ?q) = Rejected reason" "wd ?q = wd p"
      "trace ?q = trace p @ [Settled (Rejected reason), Console_error reason]"
      using Rejected by (simp_all add: chain_eq startup_rejected)
    have "promise (ld ?q) \<noteq> Pending" using q by simp
    from deliver_settled[OF this, of e fr ord evs] show ?thesis
      unfolding d using q by (simp add: startup_rejected)
  qed
qed

lemma main_startup:
  assumes "length evs \<le> 4"
  shows "(promise (ld (main e fr ord evs)) = Pending \<and>
        wd (main e fr ord evs) = initial_world \<and> trace (main e fr ord evs) = []) \<or>
     (promise (ld (main e fr ord evs)) \<noteq> Pending \<and>
        wd (main e fr ord evs) =
          fst (startup e fr (assets_of (ld (main e fr ord evs))) initial_world
                 (promise (ld (main e fr ord evs)))) \<and>
        trace (main e fr ord evs) =
          snd (startup e fr (assets_of (ld (main e fr ord evs))) initial_world
                 (promise (ld (main e fr ord evs)))))"
proof -
  let ?p0 = "\<lparr>ld = load Map.empty, wd = initial_world, trace = []\<rparr>"
  have "promise (ld ?p0) = Pending" by (simp add: load_eq)
  moreover have "itemsLoaded (ld ?p0) + length evs \<le> itemsTotal (ld ?p0)"
    using assms by (simp add: load_eq)
  ultimately show ?thesis
    using deliver_pending[of ?p0 evs e fr ord] by (simp add: main_def)
qed

text \<open>
  C8. In every execution with at most the four completions, a failure of the startup
  sequence reaches the one \<open>catch\<close>, which writes it to the console, and that is the last
  thing the chain does. If the promise of \<open>load\<close> is rejected, neither \<open>initialize\<close> nor
  \<open>render\<close> is called and the scene state is untouched. If \<open>initialize\<close> throws, \<open>render\<close>
  is not called and the state is as \<open>initialize\<close> left it. If the first \<open>render\<close> throws,
  the state is as that call left it. If nothing fails, nothing is written.
\<close>

theorem main_failures:
  assumes "length evs \<le> 4"
  shows
   "(\<forall>reason. promise (ld (main e fr ord evs)) = Rejected reason \<longrightarrow>
       trace (main e fr ord evs) = [Settled (Rejected reason), Console_error reason] \<and>
       wd (main e fr ord evs) = initial_world) \<and>
    (\<forall>err. promise (ld (main e fr ord evs)) = Fulfilled \<and>
       snd (initialize e (assets_of (ld (main e fr ord evs))) initial_world) = Some err \<longrightarrow>
       trace (main e fr ord evs) = [Settled Fulfilled, Call_initialize, Console_error err] \<and>
       wd (main e fr ord evs) = fst (initialize e (assets_of (ld (main e fr ord evs))) initial_world)) \<and>
    (\<forall>err. promise (ld (main e fr ord evs)) = Fulfilled \<and>
       snd (initialize e (assets_of (ld (main e fr ord evs))) initial_world) = None \<and>
       snd (render fr 0 (fst (initialize e (assets_of (ld (main e fr ord evs))) initial_world))) = Some err \<longrightarrow>
       trace (main e fr ord evs) =
         [Settled Fulfilled, Call_initialize, Return_initialize, Call_render, Console_error err] \<and>
       wd (main e fr ord evs) =
         fst (render fr 0 (fst (initialize e (assets_of (ld (main e fr ord evs))) initial_world)))) \<and>
    (promise (ld (main e fr ord evs)) = Fulfilled \<and>
       snd (initialize e (assets_of (ld (main e fr ord evs))) initial_world) = None \<and>
       snd (render fr 0 (fst (initialize e (assets_of (ld (main e fr ord evs))) initial_world))) = None \<longrightarrow>
       trace (main e fr ord evs) =
         [Settled Fulfilled, Call_initialize, Return_initialize, Call_render, Return_render]) \<and>
    (promise (ld (main e fr ord evs)) = Pending \<longrightarrow>
       trace (main e fr ord evs) = [] \<and> wd (main e fr ord evs) = initial_world)"
  using main_startup[OF assms, of e fr ord]
  by (cases "promise (ld (main e fr ord evs))")
     (auto simp: startup_def split: prod.splits option.splits)

lemma url_one: "url 1 = ''models/object1.obj''" "url (Suc 0) = ''models/object1.obj''"
  by code_simp+

lemma sample_loads_state:
  "promise (settle_all ord sample_loads (load Map.empty)) = Fulfilled"
  "i < 4 \<Longrightarrow> assets_of (settle_all ord sample_loads (load Map.empty)) (key i) = Some (sample_object i)"
  by (auto dest!: below_four simp: sample_loads_def load_eq settle_defs key_simps)

theorem main_failures_witness:
  "length [(1, Failure)] \<le> 4 \<and> length sample_loads \<le> 4 \<and>
   trace (main sample_env sample_frame ErrorThenEnd [(1, Failure)]) =
     [Settled (Rejected (LoadError ''models/object1.obj'')),
      Console_error (LoadError ''models/object1.obj'')] \<and>
   trace (main (sample_env\<lparr>viewport_present := False\<rparr>) sample_frame ErrorThenEnd sample_loads) =
     [Settled Fulfilled, Call_initialize, Console_error TypeError] \<and>
   trace (main sample_env (sample_frame\<lparr>composer_fault := Some (LibraryError 7)\<rparr>) ErrorThenEnd
            sample_loads) =
     [Settled Fulfilled, Call_initialize, Return_initialize, Call_render,
      Console_error (LibraryError 7)]"
proof -
  have l1: "length [(1 :: nat, Failure)] \<le> 4" by simp
  have l4: "length sample_loads \<le> 4" by (simp add: sample_loads_def)
  have "promise (ld (main sample_env sample_frame ErrorThenEnd [(1, Failure)])) =
      Rejected (LoadError ''models/object1.obj'')"
    by (simp add: ld_main load_eq settle_defs url_one)
  with main_failures[OF l1, of sample_env sample_frame ErrorThenEnd]
  have first: "trace (main sample_env sample_frame ErrorThenEnd [(1, Failure)]) =
     [Settled (Rejected (LoadError ''models/object1.obj'')),
      Console_error (LoadError ''models/object1.obj'')]"
    by simp
  let ?e = "sample_env\<lparr>viewport_present := False\<rparr>"
  have "promise (ld (main ?e sample_frame ErrorThenEnd sample_loads)) = Fulfilled"
    by (simp add: ld_main sample_loads_state)
  moreover have "snd (initialize ?e a initial_world) = Some TypeError" for a
    by (simp add: initialize_def Let_def)
  ultimately have second: "trace (main ?e sample_frame ErrorThenEnd sample_loads) =
     [Settled Fulfilled, Call_initialize, Console_error TypeError]"
    using main_failures[OF l4, of ?e sample_frame ErrorThenEnd] by simp
  let ?fr = "sample_frame\<lparr>composer_fault := Some (LibraryError 7)\<rparr>"
  let ?a = "assets_of (ld (main sample_env ?fr ErrorThenEnd sample_loads))"
  have pr: "promise (ld (main sample_env ?fr ErrorThenEnd sample_loads)) = Fulfilled"
    by (simp add: ld_main sample_loads_state)
  have k: "?a (key 0) = Some (sample_object 0)" "?a (key 1) = Some (sample_object 1)"
    "?a (key 2) = Some (sample_object 2)" "?a (key 3) = Some (sample_object 3)"
    by (simp_all add: ld_main sample_loads_state)
  note init = initialize_eq[OF sample_env_viewport k, of initial_world]
  have "snd (render ?fr 0 (fst (initialize sample_env ?a initial_world))) = Some (LibraryError 7)"
    using render_result[OF init(4) init(2) init(3) init(5), of ?fr 0] by simp
  with pr init(1) main_failures[OF l4, of sample_env ?fr ErrorThenEnd]
  have third: "trace (main sample_env ?fr ErrorThenEnd sample_loads) =
     [Settled Fulfilled, Call_initialize, Return_initialize, Call_render,
      Console_error (LibraryError 7)]"
    by simp
  from l1 l4 first second third show ?thesis by simp
qed

section \<open>Failed requests\<close>

text \<open>
  What the promise of \<open>load\<close> does when a request fails depends on the order in which the
  manager makes its two calls for that request. The program is the same in both cases; the
  lemmas of this section record what it does in each.
\<close>

lemma settle_all_append:
  "settle_all ord (xs @ ys) s = settle_all ord ys (settle_all ord xs s)"
  by (induction xs arbitrary: s) simp_all

lemma settle_all_settled:
  "promise s \<noteq> Pending \<Longrightarrow> promise (settle_all ord evs s) = promise s"
  by (induction evs arbitrary: s) (simp_all add: settle_settled)

lemma after_successes:
  assumes "list_all succeeds oks" and "length oks < 4"
  shows "promise (settle_all ord oks (load a)) = Pending"
    and "itemsLoaded (settle_all ord oks (load a)) = length oks"
    and "itemsTotal (settle_all ord oks (load a)) = 4"
  using all_success_promise[OF assms(1), of "load a" ord] assms(2)
  by (simp_all add: load_eq settle_all_loaded settle_all_total)

text \<open>
  When the error is reported first, the first failure rejects the promise, whatever the
  other requests have done or do later.
\<close>

lemma failure_error_first:
  assumes "list_all succeeds oks" and "length oks < 4"
  shows "promise (settle_all ErrorThenEnd (oks @ (i, Failure) # rest) (load a)) =
    Rejected (LoadError (url i))"
proof -
  let ?s = "settle_all ErrorThenEnd oks (load a)"
  have "promise (settle ErrorThenEnd (i, Failure) ?s) = Rejected (LoadError (url i))"
    using after_successes(1)[OF assms, of ErrorThenEnd a] by (simp add: settle_defs)
  then show ?thesis
    by (simp add: settle_all_append settle_all_settled)
qed

text \<open>
  When the request is counted as ended first, the first failure rejects the promise if it
  is among the first three completions. If it is the fourth, the count reaches the total
  before the error is reported, and the promise is fulfilled although the asset of the
  failed request is missing.
\<close>

lemma failure_end_first:
  assumes "list_all succeeds oks"
  shows "length oks < 3 \<Longrightarrow>
      promise (settle_all EndThenError (oks @ (i, Failure) # rest) (load a)) =
        Rejected (LoadError (url i))"
    and "length oks = 3 \<Longrightarrow>
      promise (settle_all EndThenError (oks @ (i, Failure) # rest) (load a)) = Fulfilled"
proof -
  let ?s = "settle_all EndThenError oks (load a)"
  show "promise (settle_all EndThenError (oks @ (i, Failure) # rest) (load a)) =
        Rejected (LoadError (url i))" if "length oks < 3"
  proof -
    have "length oks < 4" using that by simp
    from after_successes[OF assms this, of EndThenError a] that
    have "promise (settle EndThenError (i, Failure) ?s) = Rejected (LoadError (url i))"
      by (simp add: settle_defs)
    then show ?thesis by (simp add: settle_all_append settle_all_settled)
  qed
  show "promise (settle_all EndThenError (oks @ (i, Failure) # rest) (load a)) = Fulfilled"
    if "length oks = 3"
  proof -
    have "length oks < 4" using that by simp
    from after_successes[OF assms this, of EndThenError a] that
    have "promise (settle EndThenError (i, Failure) ?s) = Fulfilled"
      by (simp add: settle_defs)
    then show ?thesis by (simp add: settle_all_append settle_all_settled)
  qed
qed

lemma first_failure:
  "\<not> list_all succeeds evs \<Longrightarrow>
   \<exists>oks i rest. evs = oks @ (i, Failure) # rest \<and> list_all succeeds oks"
proof (induction evs)
  case Nil
  then show ?case by simp
next
  case (Cons ev evs)
  show ?case
  proof (cases "succeeds ev")
    case True
    with Cons obtain oks i rest where "evs = oks @ (i, Failure) # rest" "list_all succeeds oks"
      by auto
    then have "ev # evs = (ev # oks) @ (i, Failure) # rest \<and> list_all succeeds (ev # oks)"
      using True by simp
    then show ?thesis by blast
  next
    case False
    then obtain i where "ev = (i, Failure)"
      by (cases ev, cases "snd ev") (auto simp: succeeds_def)
    then have "ev # evs = [] @ (i, Failure) # evs \<and> list_all succeeds []" by simp
    then show ?thesis by blast
  qed
qed

text \<open>
  So when the error is reported first, a fulfilled promise means that all four requests
  have succeeded and \<open>initialize\<close> finds all four assets.
\<close>

lemma fulfilled_error_first:
  assumes ex: "execution evs"
    and ful: "promise (settle_all ErrorThenEnd evs (load a)) = Fulfilled"
  shows "list_all succeeds evs \<and> length evs = 4 \<and>
    (\<forall>i < 4. key i \<in> dom (assets_of (settle_all ErrorThenEnd evs (load a))))"
proof -
  have len: "length evs \<le> 4" using ex by (rule execution_length)
  have ok: "list_all succeeds evs"
  proof (rule ccontr)
    assume "\<not> list_all succeeds evs"
    from first_failure[OF this] obtain oks i rest where
      evs: "evs = oks @ (i, Failure) # rest" and oks: "list_all succeeds oks"
      by blast
    have "length oks < 4" using len evs by simp
    from failure_error_first[OF oks this, of i rest a] ful evs show False by simp
  qed
  have four: "length evs = 4"
    using all_success_promise[OF ok, of "load a" ErrorThenEnd] len ful
    by (simp add: load_eq split: if_splits)
  have "key i \<in> dom (assets_of (settle_all ErrorThenEnd evs (load a)))" if "i < 4" for i
  proof -
    from execution_complete[OF ex four that] obtain oc where mem: "(i, oc) \<in> set evs" by auto
    with ok have "succeeds (i, oc)" by (simp add: list_all_iff)
    then obtain obj where "oc = Success obj" by (cases oc) (simp_all add: succeeds_def)
    with mem show ?thesis by (simp add: settle_all_has_key)
  qed
  with ok four show ?thesis by simp
qed

text \<open>
  And when the request is counted as ended first, the execution in which the requests 0,
  1 and 2 succeed and request 3 then fails fulfils the promise: \<open>initialize\<close> is called
  with three assets and throws on the fourth.
\<close>

lemma partial_end_first:
  "trace (main sample_env sample_frame EndThenError
      [(0, Success (sample_object 0)), (1, Success (sample_object 1)),
       (2, Success (sample_object 2)), (3, Failure)]) =
     [Settled Fulfilled, Call_initialize, Console_error TypeError]"
proof -
  let ?evs = "[(0, Success (sample_object 0)), (1, Success (sample_object 1)),
       (2, Success (sample_object 2)), (3, Failure)]"
  let ?p = "main sample_env sample_frame EndThenError ?evs"
  have pr: "promise (ld ?p) = Fulfilled"
    by (simp add: ld_main load_eq settle_defs)
  define a where "a = assets_of (ld ?p)"
  have k': "a (key 0) = Some (sample_object 0)" "a (key 1) = Some (sample_object 1)"
    "a (key 2) = Some (sample_object 2)" "a (key 3) = None"
    unfolding a_def by (simp_all add: ld_main load_eq settle_defs key_simps)
  have k: "a (key (Suc 0)) = Some (sample_object 1)"
    "a (key (Suc (Suc 0))) = Some (sample_object 2)" "a (key (Suc (Suc (Suc 0)))) = None"
    using k' by (simp_all add: eval_nat_numeral)
  have ring: "snd (ring_loop a 0 0 new_Group) = Some TypeError"
    apply (subst ring_loop.simps, simp add: k'(1) Let_def)
    apply (subst ring_loop.simps, simp add: k Let_def)
    apply (subst ring_loop.simps, simp add: k Let_def)
    apply (subst ring_loop.simps, simp add: k Let_def)
    done
  note cloud = createParticleCloud_2000
  obtain g where g: "ring_loop a 0 0 new_Group = (g, Some TypeError)"
    using ring by (cases "ring_loop a 0 0 new_Group") simp
  have "snd (initialize sample_env a initial_world) = Some TypeError"
    by (simp add: initialize_def Let_def cloud g sample_env_viewport)
  then have "snd (initialize sample_env (assets_of (ld ?p)) initial_world) = Some TypeError"
    by (simp only: a_def)
  with pr main_startup[of ?evs sample_env sample_frame EndThenError] show ?thesis
    by (auto simp: startup_def split: prod.splits)
qed

end
